theory Spec2Isabelle
  imports Main "HOL-Library.Word"
begin

section \<open>The persistent trie of \<^verbatim>\<open>trie_index/storage.py\<close>\<close>

text \<open>
  The trie lives in one file of fixed-size node records. The model keeps the file as the
  list of its bytes together with the position of the file handle, and threads this store
  through every operation: each operation returns its outcome (an error or a value) and
  the store it leaves. Python integers are \<open>int\<close>, counts and node ids (file length
  divided by the record size) are \<open>nat\<close>, bytes are \<open>8 word\<close>, and a Python
  \<^verbatim>\<open>str\<close> is the list of its code points.

  Names are those of the source, with the leading underscore of the private methods
  dropped. Three had to change: \<^verbatim>\<open>insert\<close> is \<open>insert_word\<close>, and the keys
  \<^verbatim>\<open>"char"\<close> and \<^verbatim>\<open>"values"\<close> of a node are the fields \<open>node_char\<close> and
  \<open>node_values\<close>. A closed handle and the buffering that \<^verbatim>\<open>flush\<close> ends are not
  modelled: a write is in the file at once.
\<close>

subsection \<open>Constants, errors, the store\<close>

type_synonym byte = "8 word"

definition NODE_SIZE :: nat where "NODE_SIZE = 1024"
definition MAX_VALUES :: nat where "MAX_VALUES = 8"
definition MAX_CHILDREN :: nat where "MAX_CHILDREN = 64"

datatype error =
    IndexError | StructError | ValueError | TypeError | UnicodeEncodeError | RecursionError

record store =
  content :: "byte list"
  position :: nat

text \<open>The dictionary that \<^verbatim>\<open>_read_node\<close> returns.\<close>

record node =
  node_char :: "byte list"
  is_terminal :: bool
  node_values :: "int list"
  children :: "(byte \<times> nat) list"

subsection \<open>The file handle\<close>

definition file_seek :: "nat \<Rightarrow> store \<Rightarrow> store" where
  "file_seek p s = s\<lparr>position := p\<rparr>"

definition file_read :: "nat \<Rightarrow> store \<Rightarrow> byte list \<times> store" where
  "file_read n s =
     (let data = take n (drop (position s) (content s))
      in (data, s\<lparr>position := position s + length data\<rparr>))"

text \<open>Writing past the end of the file fills the gap with zero bytes.\<close>

definition file_write :: "byte list \<Rightarrow> store \<Rightarrow> store" where
  "file_write buf s =
     (let p = position s; f = content s
      in s\<lparr>content := take p f @ replicate (p - length f) 0 @ buf @ drop (p + length buf) f,
            position := p + length buf\<rparr>)"

subsection \<open>Slices and \<^verbatim>\<open>struct\<close>\<close>

text \<open>\<^verbatim>\<open>xs[a:b]\<close> for non-negative bounds: the slice is clipped to the list.\<close>

definition py_slice :: "'a list \<Rightarrow> nat \<Rightarrow> nat \<Rightarrow> 'a list" where
  "py_slice xs a b = take (b - a) (drop a xs)"

fun le_u32s :: "byte list \<Rightarrow> int list" where
  "le_u32s (b0 # b1 # b2 # b3 # bs) =
     (uint b0 + 256 * uint b1 + 65536 * uint b2 + 16777216 * uint b3) # le_u32s bs"
| "le_u32s bs = []"

text \<open>\<^verbatim>\<open>struct.unpack("<" + "I" * n, bs)\<close>: the buffer must hold exactly \<open>4 * n\<close> bytes.\<close>

definition struct_unpack_I :: "nat \<Rightarrow> byte list \<Rightarrow> error + int list" where
  "struct_unpack_I n bs = (if length bs \<noteq> 4 * n then Inl StructError else Inr (le_u32s bs))"

text \<open>\<^verbatim>\<open>struct.unpack("<H", bs)[0]\<close>.\<close>

fun struct_unpack_H :: "byte list \<Rightarrow> error + nat" where
  "struct_unpack_H [b0, b1] = Inr (unat b0 + 256 * unat b1)"
| "struct_unpack_H bs = Inl StructError"

definition le_u32_bytes :: "int \<Rightarrow> byte list" where
  "le_u32_bytes v =
     [word_of_int v, word_of_int (v div 256), word_of_int (v div 65536),
      word_of_int (v div 16777216)]"

definition le_u16_bytes :: "nat \<Rightarrow> byte list" where
  "le_u16_bytes n = [of_nat n, of_nat (n div 256)]"

definition put_bytes :: "byte list \<Rightarrow> nat \<Rightarrow> byte list \<Rightarrow> byte list" where
  "put_bytes buf offset bs = take offset buf @ bs @ drop (offset + length bs) buf"

text \<open>
  \<^verbatim>\<open>struct.pack_into("<" + "I" * len(values), buf, offset, *values)\<close>: \<^verbatim>\<open>struct.error\<close>
  when the buffer is too small or a value is not an unsigned 32-bit number.
\<close>

definition struct_pack_into_I :: "byte list \<Rightarrow> nat \<Rightarrow> int list \<Rightarrow> error + byte list" where
  "struct_pack_into_I buf offset vs =
     (if length buf < offset + 4 * length vs then Inl StructError
      else if list_ex (\<lambda>v. v < 0 \<or> 4294967295 < v) vs then Inl StructError
      else Inr (put_bytes buf offset (concat (map le_u32_bytes vs))))"

text \<open>\<^verbatim>\<open>struct.pack_into("<H", buf, offset, n)\<close>.\<close>

definition struct_pack_into_H :: "byte list \<Rightarrow> nat \<Rightarrow> nat \<Rightarrow> error + byte list" where
  "struct_pack_into_H buf offset n =
     (if length buf < offset + 2 then Inl StructError
      else if 65535 < n then Inl StructError
      else Inr (put_bytes buf offset (le_u16_bytes n)))"

subsection \<open>\<^verbatim>\<open>_read_node\<close>\<close>

text \<open>The loop \<^verbatim>\<open>for i in range(num_children)\<close>, appending to \<^verbatim>\<open>children\<close>.\<close>

fun read_children :: "byte list \<Rightarrow> nat list \<Rightarrow> (byte \<times> nat) list \<Rightarrow> error + (byte \<times> nat) list"
where
  "read_children data [] cs = Inr cs"
| "read_children data (i # is) cs =
     (let offset = 36 + i * 3 in
      if length data \<le> offset then Inl IndexError
      else
        let child_char = data ! offset in
        case struct_unpack_H (py_slice data (offset + 1) (offset + 3)) of
          Inl e \<Rightarrow> Inl e
        | Inr child_node \<Rightarrow> read_children data is (cs @ [(child_char, child_node)]))"

text \<open>
  What \<^verbatim>\<open>_read_node\<close> makes of the bytes it has read: \<open>None\<close> when there are none,
  an exception when an index or a \<^verbatim>\<open>struct\<close> format runs past them.
\<close>

definition decode_record :: "byte list \<Rightarrow> error + node option" where
  "decode_record data =
     (if data = [] then Inr None
      else if length data \<le> 2 then Inl IndexError
      else
        let num_values = unat (data ! 2) in
        case struct_unpack_I num_values (py_slice data 3 (3 + 4 * num_values)) of
          Inl e \<Rightarrow> Inl e
        | Inr vs \<Rightarrow>
            if length data \<le> 35 then Inl IndexError
            else
              let num_children = unat (data ! 35) in
              (case read_children data [0..<num_children] [] of
                 Inl e \<Rightarrow> Inl e
               | Inr cs \<Rightarrow>
                   Inr (Some \<lparr>node_char = py_slice data 0 1, is_terminal = (data ! 1 \<noteq> 0),
                              node_values = vs, children = cs\<rparr>)))"

definition read_node :: "nat \<Rightarrow> store \<Rightarrow> (error + node option) \<times> store" where
  "read_node node_id s =
     (let (data, s1) = file_read NODE_SIZE (file_seek (node_id * NODE_SIZE) s)
      in (decode_record data, s1))"

subsection \<open>\<^verbatim>\<open>_write_node\<close>\<close>

text \<open>The loop \<^verbatim>\<open>for i, (c, node_idx) in enumerate(children)\<close>.\<close>

fun write_children :: "byte list \<Rightarrow> (nat \<times> byte \<times> nat) list \<Rightarrow> error + byte list" where
  "write_children buf [] = Inr buf"
| "write_children buf ((i, c, node_idx) # rest) =
     (let offset = 36 + i * 3 in
      if length buf \<le> offset then Inl IndexError
      else
        case struct_pack_into_H (buf[offset := c]) (offset + 1) node_idx of
          Inl e \<Rightarrow> Inl e
        | Inr buf1 \<Rightarrow> write_children buf1 rest)"

text \<open>
  The buffer \<^verbatim>\<open>_write_node\<close> builds. \<^verbatim>\<open>buf[0:1] = char\<close> is a slice assignment, a
  byte count above 255 is a \<^verbatim>\<open>ValueError\<close>, a value or a node id out of its range a
  \<^verbatim>\<open>struct.error\<close>.
\<close>

definition encode_record ::
  "byte list \<Rightarrow> bool \<Rightarrow> int list \<Rightarrow> (byte \<times> nat) list \<Rightarrow> error + byte list" where
  "encode_record ch is_t vs cs =
     (let buf0 = ch @ drop 1 (replicate NODE_SIZE 0) in
      if length buf0 \<le> 2 then Inl IndexError
      else if 255 < length vs then Inl ValueError
      else
        case struct_pack_into_I (buf0[1 := (if is_t then 1 else 0), 2 := of_nat (length vs)]) 3 vs of
          Inl e \<Rightarrow> Inl e
        | Inr buf1 \<Rightarrow>
            if length buf1 \<le> 35 then Inl IndexError
            else if 255 < length cs then Inl ValueError
            else write_children (buf1[35 := of_nat (length cs)]) (enumerate 0 cs))"

definition write_node ::
  "nat \<Rightarrow> byte list \<Rightarrow> bool \<Rightarrow> int list \<Rightarrow> (byte \<times> nat) list \<Rightarrow> store \<Rightarrow> (error + unit) \<times> store"
where
  "write_node node_id ch is_t vs cs s =
     (case encode_record ch is_t vs cs of
        Inl e \<Rightarrow> (Inl e, s)
      | Inr buf \<Rightarrow> (Inr (), file_write buf (file_seek (node_id * NODE_SIZE) s)))"

subsection \<open>Allocation and the constructor\<close>

definition get_next_node_id :: "store \<Rightarrow> nat \<times> store" where
  "get_next_node_id s =
     (let s1 = file_seek (length (content s)) s in (position s1 div NODE_SIZE, s1))"

text \<open>\<^verbatim>\<open>__init__\<close> on a file with the bytes \<open>f\<close>: an empty file gets its root record.\<close>

definition init_trie :: "byte list \<Rightarrow> (error + unit) \<times> store" where
  "init_trie f =
     (let s = \<lparr>content = f, position = 0\<rparr> in
      if length f = 0 then write_node 0 [0] False [] [] s else (Inr (), s))"

subsection \<open>\<^verbatim>\<open>str.encode("utf-8")\<close>\<close>

text \<open>
  A string is the list of its code points. The surrogates (55296 to 57343) have no UTF-8
  encoding: Python raises \<^verbatim>\<open>UnicodeEncodeError\<close>. A number from 1114112 on is no code
  point of any string; the model gives it the same error.
\<close>

type_synonym pystr = "nat list"

definition utf8_char :: "nat \<Rightarrow> error + byte list" where
  "utf8_char cp =
     (if cp < 128 then Inr [of_nat cp]
      else if cp < 2048 then Inr [of_nat (192 + cp div 64), of_nat (128 + cp mod 64)]
      else if cp < 65536 then
        (if 55296 \<le> cp \<and> cp \<le> 57343 then Inl UnicodeEncodeError
         else Inr [of_nat (224 + cp div 4096), of_nat (128 + cp div 64 mod 64),
                   of_nat (128 + cp mod 64)])
      else if cp < 1114112 then
        Inr [of_nat (240 + cp div 262144), of_nat (128 + cp div 4096 mod 64),
             of_nat (128 + cp div 64 mod 64), of_nat (128 + cp mod 64)]
      else Inl UnicodeEncodeError)"

fun encode_utf8 :: "pystr \<Rightarrow> error + byte list" where
  "encode_utf8 [] = Inr []"
| "encode_utf8 (cp # cps) =
     (case utf8_char cp of
        Inl e \<Rightarrow> Inl e
      | Inr bs \<Rightarrow> (case encode_utf8 cps of Inl e \<Rightarrow> Inl e | Inr rest \<Rightarrow> Inr (bs @ rest)))"

subsection \<open>\<^verbatim>\<open>_find_or_create_child\<close> and \<^verbatim>\<open>insert\<close>\<close>

text \<open>The loop \<^verbatim>\<open>for c, node_idx in children: if c == target_char: return node_idx\<close>.\<close>

fun find_child :: "(byte \<times> nat) list \<Rightarrow> byte \<Rightarrow> nat option" where
  "find_child [] target_char = None"
| "find_child ((c, node_idx) # rest) target_char =
     (if c = target_char then Some node_idx else find_child rest target_char)"

definition find_or_create_child :: "nat \<Rightarrow> byte \<Rightarrow> store \<Rightarrow> (error + nat) \<times> store" where
  "find_or_create_child parent_id target_char s =
     (case read_node parent_id s of
        (Inl e, s1) \<Rightarrow> (Inl e, s1)
      | (Inr None, s1) \<Rightarrow> (Inl TypeError, s1)
      | (Inr (Some nd), s1) \<Rightarrow>
          (case find_child (children nd) target_char of
             Some node_idx \<Rightarrow> (Inr node_idx, s1)
           | None \<Rightarrow>
               (let (new_node_id, s2) = get_next_node_id s1 in
                case write_node parent_id (node_char nd) (is_terminal nd) (node_values nd)
                       (children nd @ [(target_char, new_node_id)]) s2 of
                  (Inl e, s3) \<Rightarrow> (Inl e, s3)
                | (Inr u, s3) \<Rightarrow>
                    (case write_node new_node_id [target_char] False [] [] s3 of
                       (Inl e, s4) \<Rightarrow> (Inl e, s4)
                     | (Inr u, s4) \<Rightarrow> (Inr new_node_id, s4)))))"

text \<open>The loop \<^verbatim>\<open>for char in word: node_id = self._find_or_create_child(node_id, char)\<close>.\<close>

fun insert_loop :: "byte list \<Rightarrow> nat \<Rightarrow> store \<Rightarrow> (error + nat) \<times> store" where
  "insert_loop [] node_id s = (Inr node_id, s)"
| "insert_loop (c # cs) node_id s =
     (case find_or_create_child node_id c s of
        (Inl e, s1) \<Rightarrow> (Inl e, s1)
      | (Inr child_id, s1) \<Rightarrow> insert_loop cs child_id s1)"

text \<open>The value list after \<^verbatim>\<open>insert\<close>'s two nested tests.\<close>

definition add_value :: "int list \<Rightarrow> int \<Rightarrow> int list" where
  "add_value vs v =
     (if v \<notin> set vs then (if length vs < MAX_VALUES then vs @ [v] else vs) else vs)"

definition insert_word :: "pystr \<Rightarrow> int \<Rightarrow> store \<Rightarrow> (error + unit) \<times> store" where
  "insert_word word v s =
     (case encode_utf8 word of
        Inl e \<Rightarrow> (Inl e, s)
      | Inr bs \<Rightarrow>
          (case insert_loop bs 0 s of
             (Inl e, s1) \<Rightarrow> (Inl e, s1)
           | (Inr node_id, s1) \<Rightarrow>
               (case read_node node_id s1 of
                  (Inl e, s2) \<Rightarrow> (Inl e, s2)
                | (Inr None, s2) \<Rightarrow> (Inl TypeError, s2)
                | (Inr (Some nd), s2) \<Rightarrow>
                    write_node node_id (node_char nd) True (add_value (node_values nd) v)
                      (children nd) s2)))"

subsection \<open>\<^verbatim>\<open>lookup\<close> and \<^verbatim>\<open>prefix_search\<close>\<close>

text \<open>
  The descent that \<^verbatim>\<open>lookup\<close> and \<^verbatim>\<open>prefix_search\<close> both spell out: \<open>None\<close> is the
  \<^verbatim>\<open>else\<close> branch of the inner loop, where the function returns the empty list.
\<close>

fun descend :: "byte list \<Rightarrow> nat \<Rightarrow> store \<Rightarrow> (error + nat option) \<times> store" where
  "descend [] node_id s = (Inr (Some node_id), s)"
| "descend (c # cs) node_id s =
     (case read_node node_id s of
        (Inl e, s1) \<Rightarrow> (Inl e, s1)
      | (Inr None, s1) \<Rightarrow> (Inl TypeError, s1)
      | (Inr (Some nd), s1) \<Rightarrow>
          (case find_child (children nd) c of
             None \<Rightarrow> (Inr None, s1)
           | Some child_id \<Rightarrow> descend cs child_id s1))"

definition lookup :: "pystr \<Rightarrow> store \<Rightarrow> (error + int list) \<times> store" where
  "lookup word s =
     (case encode_utf8 word of
        Inl e \<Rightarrow> (Inl e, s)
      | Inr bs \<Rightarrow>
          (case descend bs 0 s of
             (Inl e, s1) \<Rightarrow> (Inl e, s1)
           | (Inr None, s1) \<Rightarrow> (Inr [], s1)
           | (Inr (Some node_id), s1) \<Rightarrow>
               (case read_node node_id s1 of
                  (Inl e, s2) \<Rightarrow> (Inl e, s2)
                | (Inr None, s2) \<Rightarrow> (Inl TypeError, s2)
                | (Inr (Some nd), s2) \<Rightarrow>
                    (Inr (if is_terminal nd then node_values nd else []), s2))))"

text \<open>
  The nested \<^verbatim>\<open>dfs\<close>: \<^verbatim>\<open>results\<close> is the list the closure appends to, \<open>path\<close> a list of
  one-character strings, that is of code points, and \<^verbatim>\<open>chr(c)\<close> turns the byte \<open>c\<close> into
  the code point of the same number. The first argument is the number of nested calls
  of \<^verbatim>\<open>dfs\<close> that the interpreter's recursion limit still allows; at none Python
  raises \<^verbatim>\<open>RecursionError\<close>. An exception ends the search: the results collected so
  far are lost.
\<close>

fun dfs ::
  "nat \<Rightarrow> nat \<Rightarrow> pystr \<Rightarrow> (pystr \<times> int list) list \<Rightarrow> store
     \<Rightarrow> (error + (pystr \<times> int list) list) \<times> store"
and dfs_children ::
  "nat \<Rightarrow> (byte \<times> nat) list \<Rightarrow> pystr \<Rightarrow> (pystr \<times> int list) list \<Rightarrow> store
     \<Rightarrow> (error + (pystr \<times> int list) list) \<times> store"
where
  "dfs 0 current_id path results s = (Inl RecursionError, s)"
| "dfs (Suc depth) current_id path results s =
     (case read_node current_id s of
        (Inl e, s1) \<Rightarrow> (Inl e, s1)
      | (Inr None, s1) \<Rightarrow> (Inl TypeError, s1)
      | (Inr (Some nd), s1) \<Rightarrow>
          dfs_children depth (children nd) path
            (if is_terminal nd then results @ [(path, node_values nd)] else results) s1)"
| "dfs_children depth [] path results s = (Inr results, s)"
| "dfs_children depth ((c, child_id) # rest) path results s =
     (case dfs depth child_id (path @ [unat c]) results s of
        (Inl e, s1) \<Rightarrow> (Inl e, s1)
      | (Inr results1, s1) \<Rightarrow> dfs_children depth rest path results1 s1)"

definition prefix_search ::
  "nat \<Rightarrow> pystr \<Rightarrow> store \<Rightarrow> (error + (pystr \<times> int list) list) \<times> store" where
  "prefix_search depth prefix s =
     (case encode_utf8 prefix of
        Inl e \<Rightarrow> (Inl e, s)
      | Inr prefix_bytes \<Rightarrow>
          (case descend prefix_bytes 0 s of
             (Inl e, s1) \<Rightarrow> (Inl e, s1)
           | (Inr None, s1) \<Rightarrow> (Inr [], s1)
           | (Inr (Some node_id), s1) \<Rightarrow> dfs depth node_id prefix [] s1))"

subsection \<open>Runs of inserts\<close>

text \<open>
  Not a function of the source, but what a caller of it writes:
  \<^verbatim>\<open>trie.insert(w1, v1); trie.insert(w2, v2); ...\<close>. The run stops at the first insert
  that raises.
\<close>

fun insert_all :: "(pystr \<times> int) list \<Rightarrow> store \<Rightarrow> (error + unit) \<times> store" where
  "insert_all [] s = (Inr (), s)"
| "insert_all ((word, v) # rest) s =
     (case insert_word word v s of
        (Inl e, s1) \<Rightarrow> (Inl e, s1)
      | (Inr u, s1) \<Rightarrow> insert_all rest s1)"

text \<open>
  The stores the program itself produces: a new file, opened, and whatever inserts,
  lookups, searches and re-openings come after, whether they return or raise, together
  with the stores between the steps of an insert: those that \<^verbatim>\<open>_find_or_create_child\<close>
  and the loop over the bytes of the key leave. The claims about what inserts leave in
  the file are stated for these stores.
\<close>

inductive reachable :: "store \<Rightarrow> bool" where
  reachable_init: "reachable (snd (init_trie []))"
| reachable_insert: "reachable s \<Longrightarrow> reachable (snd (insert_word word v s))"
| reachable_lookup: "reachable s \<Longrightarrow> reachable (snd (lookup word s))"
| reachable_search: "reachable s \<Longrightarrow> reachable (snd (prefix_search depth prefix s))"
| reachable_reopen: "reachable s \<Longrightarrow> reachable (snd (init_trie (content s)))"
| reachable_child:
    "reachable s \<Longrightarrow> reachable (snd (find_or_create_child parent_id target_char s))"
| reachable_loop: "reachable s \<Longrightarrow> reachable (snd (insert_loop bs node_id s))"

section \<open>The file as a list of nodes\<close>

text \<open>
  The definitions of this section are not code of the repository: they describe the files
  the program itself produces, so that the operations can be followed node by node
  instead of byte by byte.
\<close>

text \<open>A node that \<^verbatim>\<open>_write_node\<close> can write and \<^verbatim>\<open>_read_node\<close> reads back as it is.\<close>

definition wf_node :: "node \<Rightarrow> bool" where
  "wf_node nd \<longleftrightarrow>
     length (node_char nd) = 1 \<and> length (node_values nd) \<le> MAX_VALUES \<and>
     list_all (\<lambda>v. 0 \<le> v \<and> v \<le> 4294967295) (node_values nd) \<and>
     length (children nd) \<le> 255 \<and> list_all (\<lambda>(c, i). i \<le> 65535) (children nd)"

text \<open>The exception \<^verbatim>\<open>_write_node\<close> raises for a node with a one-byte \<open>char\<close>, if any.\<close>

definition encode_error :: "int list \<Rightarrow> (byte \<times> nat) list \<Rightarrow> error option" where
  "encode_error vs cs =
     (if 255 < length vs then Some ValueError
      else if list_ex (\<lambda>v. v < 0 \<or> 4294967295 < v) vs then Some StructError
      else if 255 < length cs then Some ValueError
      else if list_ex (\<lambda>(c, i). 65535 < i) cs then Some StructError
      else None)"

text \<open>The record of a node, the file of a list of nodes, a write at a node id.\<close>

definition record_of :: "node \<Rightarrow> byte list" where
  "record_of nd =
     (case encode_record (node_char nd) (is_terminal nd) (node_values nd) (children nd) of
        Inr buf \<Rightarrow> if length buf = NODE_SIZE then buf else replicate NODE_SIZE 0
      | Inl e \<Rightarrow> replicate NODE_SIZE 0)"

definition file_of :: "node list \<Rightarrow> byte list" where
  "file_of ns = concat (map record_of ns)"

definition put_node :: "nat \<Rightarrow> node \<Rightarrow> node list \<Rightarrow> node list" where
  "put_node n nd ns = (if n < length ns then ns[n := nd] else ns @ [nd])"

text \<open>The program's operations, on the list of nodes in place of the file.\<close>

definition read_nodes :: "nat \<Rightarrow> node list \<Rightarrow> node option" where
  "read_nodes m ns = (if m < length ns then Some (ns ! m) else None)"

definition write_nodes :: "nat \<Rightarrow> node \<Rightarrow> node list \<Rightarrow> (error + unit) \<times> node list" where
  "write_nodes n nd ns =
     (case encode_error (node_values nd) (children nd) of
        Some e \<Rightarrow> (Inl e, ns)
      | None \<Rightarrow> (Inr (), put_node n nd ns))"

definition find_or_create_child_nodes ::
  "nat \<Rightarrow> byte \<Rightarrow> node list \<Rightarrow> (error + nat) \<times> node list" where
  "find_or_create_child_nodes parent_id target_char ns =
     (case read_nodes parent_id ns of
        None \<Rightarrow> (Inl TypeError, ns)
      | Some nd \<Rightarrow>
          (case find_child (children nd) target_char of
             Some node_idx \<Rightarrow> (Inr node_idx, ns)
           | None \<Rightarrow>
               (case write_nodes parent_id
                       (nd\<lparr>children := children nd @ [(target_char, length ns)]\<rparr>) ns of
                  (Inl e, ns1) \<Rightarrow> (Inl e, ns1)
                | (Inr u, ns1) \<Rightarrow>
                    (case write_nodes (length ns)
                            \<lparr>node_char = [target_char], is_terminal = False,
                             node_values = [], children = []\<rparr> ns1 of
                       (Inl e, ns2) \<Rightarrow> (Inl e, ns2)
                     | (Inr u, ns2) \<Rightarrow> (Inr (length ns), ns2)))))"

fun insert_loop_nodes :: "byte list \<Rightarrow> nat \<Rightarrow> node list \<Rightarrow> (error + nat) \<times> node list" where
  "insert_loop_nodes [] node_id ns = (Inr node_id, ns)"
| "insert_loop_nodes (c # cs) node_id ns =
     (case find_or_create_child_nodes node_id c ns of
        (Inl e, ns1) \<Rightarrow> (Inl e, ns1)
      | (Inr child_id, ns1) \<Rightarrow> insert_loop_nodes cs child_id ns1)"

definition insert_word_nodes :: "pystr \<Rightarrow> int \<Rightarrow> node list \<Rightarrow> (error + unit) \<times> node list" where
  "insert_word_nodes word v ns =
     (case encode_utf8 word of
        Inl e \<Rightarrow> (Inl e, ns)
      | Inr bs \<Rightarrow>
          (case insert_loop_nodes bs 0 ns of
             (Inl e, ns1) \<Rightarrow> (Inl e, ns1)
           | (Inr node_id, ns1) \<Rightarrow>
               (case read_nodes node_id ns1 of
                  None \<Rightarrow> (Inl TypeError, ns1)
                | Some nd \<Rightarrow>
                    write_nodes node_id
                      (nd\<lparr>is_terminal := True, node_values := add_value (node_values nd) v\<rparr>)
                      ns1)))"

fun insert_all_nodes :: "(pystr \<times> int) list \<Rightarrow> node list \<Rightarrow> (error + unit) \<times> node list" where
  "insert_all_nodes [] ns = (Inr (), ns)"
| "insert_all_nodes ((word, v) # rest) ns =
     (case insert_word_nodes word v ns of
        (Inl e, ns1) \<Rightarrow> (Inl e, ns1)
      | (Inr u, ns1) \<Rightarrow> insert_all_nodes rest ns1)"

fun descend_nodes :: "byte list \<Rightarrow> nat \<Rightarrow> node list \<Rightarrow> error + nat option" where
  "descend_nodes [] node_id ns = Inr (Some node_id)"
| "descend_nodes (c # cs) node_id ns =
     (case read_nodes node_id ns of
        None \<Rightarrow> Inl TypeError
      | Some nd \<Rightarrow>
          (case find_child (children nd) c of
             None \<Rightarrow> Inr None
           | Some child_id \<Rightarrow> descend_nodes cs child_id ns))"

definition lookup_nodes :: "pystr \<Rightarrow> node list \<Rightarrow> error + int list" where
  "lookup_nodes word ns =
     (case encode_utf8 word of
        Inl e \<Rightarrow> Inl e
      | Inr bs \<Rightarrow>
          (case descend_nodes bs 0 ns of
             Inl e \<Rightarrow> Inl e
           | Inr None \<Rightarrow> Inr []
           | Inr (Some node_id) \<Rightarrow>
               (case read_nodes node_id ns of
                  None \<Rightarrow> Inl TypeError
                | Some nd \<Rightarrow> Inr (if is_terminal nd then node_values nd else []))))"

fun dfs_nodes ::
  "nat \<Rightarrow> nat \<Rightarrow> pystr \<Rightarrow> (pystr \<times> int list) list \<Rightarrow> node list
     \<Rightarrow> error + (pystr \<times> int list) list"
and dfs_children_nodes ::
  "nat \<Rightarrow> (byte \<times> nat) list \<Rightarrow> pystr \<Rightarrow> (pystr \<times> int list) list \<Rightarrow> node list
     \<Rightarrow> error + (pystr \<times> int list) list"
where
  "dfs_nodes 0 current_id path results ns = Inl RecursionError"
| "dfs_nodes (Suc depth) current_id path results ns =
     (case read_nodes current_id ns of
        None \<Rightarrow> Inl TypeError
      | Some nd \<Rightarrow>
          dfs_children_nodes depth (children nd) path
            (if is_terminal nd then results @ [(path, node_values nd)] else results) ns)"
| "dfs_children_nodes depth [] path results ns = Inr results"
| "dfs_children_nodes depth ((c, child_id) # rest) path results ns =
     (case dfs_nodes depth child_id (path @ [unat c]) results ns of
        Inl e \<Rightarrow> Inl e
      | Inr results1 \<Rightarrow> dfs_children_nodes depth rest path results1 ns)"

definition prefix_search_nodes ::
  "nat \<Rightarrow> pystr \<Rightarrow> node list \<Rightarrow> error + (pystr \<times> int list) list" where
  "prefix_search_nodes depth prefix ns =
     (case encode_utf8 prefix of
        Inl e \<Rightarrow> Inl e
      | Inr prefix_bytes \<Rightarrow>
          (case descend_nodes prefix_bytes 0 ns of
             Inl e \<Rightarrow> Inl e
           | Inr None \<Rightarrow> Inr []
           | Inr (Some node_id) \<Rightarrow> dfs_nodes depth node_id prefix [] ns))"

text \<open>
  What holds of the node list of every file the program produces: each node fits its
  record, no value and no edge byte is listed twice, only terminal nodes carry values,
  every edge leads to a node of the file, and there are at most 65536 nodes.
\<close>

definition node_inv :: "nat \<Rightarrow> node \<Rightarrow> bool" where
  "node_inv n nd \<longleftrightarrow>
     wf_node nd \<and> distinct (node_values nd) \<and> (\<not> is_terminal nd \<longrightarrow> node_values nd = []) \<and>
     distinct (map fst (children nd)) \<and> list_all (\<lambda>(c, i). i < n) (children nd)"

definition trie_inv :: "node list \<Rightarrow> bool" where
  "trie_inv ns \<longleftrightarrow> ns \<noteq> [] \<and> length ns \<le> 65536 \<and> list_all (node_inv (length ns)) ns"

definition represents :: "store \<Rightarrow> node list \<Rightarrow> bool" where
  "represents s ns \<longleftrightarrow> content s = file_of ns \<and> trie_inv ns"

text \<open>Shorthands of the proofs.\<close>

definition extends :: "node list \<Rightarrow> node list \<Rightarrow> bool" where
  "extends ns ns' \<longleftrightarrow>
     length ns \<le> length ns' \<and>
     (\<forall>m < length ns. \<forall>c x.
        find_child (children (ns ! m)) c = Some x \<longrightarrow>
        find_child (children (ns' ! m)) c = Some x)"

definition is_fresh :: "node \<Rightarrow> bool" where
  "is_fresh nd \<longleftrightarrow> \<not> is_terminal nd \<and> node_values nd = [] \<and> children nd = []"

definition fresh_node :: "byte \<Rightarrow> node" where
  "fresh_node c = \<lparr>node_char = [c], is_terminal = False, node_values = [], children = []\<rparr>"

definition add_child :: "node \<Rightarrow> byte \<Rightarrow> nat \<Rightarrow> node" where
  "add_child nd c n = nd\<lparr>children := children nd @ [(c, n)]\<rparr>"

definition root_node :: node where
  "root_node = \<lparr>node_char = [0], is_terminal = False, node_values = [], children = []\<rparr>"

text \<open>
  The descent in the words of the specification: a node has an edge for a byte where its
  child table, read as a map, gives a child for it; a path follows one edge per byte.
\<close>

definition edge :: "store \<Rightarrow> nat \<Rightarrow> byte \<Rightarrow> nat \<Rightarrow> bool" where
  "edge s n c m \<longleftrightarrow>
     (\<exists>nd. fst (read_node n s) = Inr (Some nd) \<and> map_of (children nd) c = Some m)"

definition no_edge :: "store \<Rightarrow> nat \<Rightarrow> byte \<Rightarrow> bool" where
  "no_edge s n c \<longleftrightarrow>
     (\<exists>nd. fst (read_node n s) = Inr (Some nd) \<and> map_of (children nd) c = None)"

fun edge_path :: "store \<Rightarrow> nat \<Rightarrow> byte list \<Rightarrow> nat \<Rightarrow> bool" where
  "edge_path s n [] x \<longleftrightarrow> x = n"
| "edge_path s n (c # cs) x \<longleftrightarrow> (\<exists>m. edge s n c m \<and> edge_path s m cs x)"

section \<open>Records: encoding and decoding\<close>

lemma int_bytes_sum:
  fixes v :: int
  shows "v mod 256 + 256 * (v div 256 mod 256) + 65536 * (v div 65536 mod 256) +
         16777216 * (v div 16777216) = v"
proof -
  define q1 where "q1 = v div 256"
  define q2 where "q2 = q1 div 256"
  define q3 where "q3 = q2 div 256"
  have a: "v div 65536 = q2" by (simp add: q1_def q2_def zdiv_zmult2_eq)
  have b: "v div 16777216 = q3" by (simp add: q1_def q2_def q3_def zdiv_zmult2_eq)
  have e1: "v = 256 * q1 + v mod 256" by (simp add: q1_def)
  have e2: "q1 = 256 * q2 + q1 mod 256" by (simp add: q2_def)
  have e3: "q2 = 256 * q3 + q2 mod 256" by (simp add: q3_def)
  show ?thesis unfolding a b q1_def[symmetric] using e1 e2 e3 by linarith
qed

lemma u16_roundtrip: "n \<le> 65535 \<Longrightarrow> struct_unpack_H (le_u16_bytes n) = Inr n"
  by (simp add: le_u16_bytes_def unat_of_nat) 

lemma u32_roundtrip_one:
  "0 \<le> v \<Longrightarrow> v \<le> 4294967295 \<Longrightarrow> le_u32s (le_u32_bytes v @ bs) = v # le_u32s bs"
  by (simp add: le_u32_bytes_def uint_word_of_int int_bytes_sum)

lemma u32_roundtrip:
  "list_all (\<lambda>v. 0 \<le> v \<and> v \<le> 4294967295) vs \<Longrightarrow> le_u32s (concat (map le_u32_bytes vs)) = vs"
  by (induction vs) (simp_all add: u32_roundtrip_one)

lemma length_le_u32_concat: "length (concat (map le_u32_bytes vs)) = 4 * length vs"
  by (induction vs) (simp_all add: le_u32_bytes_def)

lemma py_slice_take_eq: "take b xs = take b ys \<Longrightarrow> py_slice xs a b = py_slice ys a b"
proof -
  assume h: "take b xs = take b ys"
  have "py_slice xs a b = drop a (take b xs)" by (simp add: py_slice_def drop_take)
  also have "\<dots> = drop a (take b ys)" by (simp add: h)
  also have "\<dots> = py_slice ys a b" by (simp add: py_slice_def drop_take)
  finally show ?thesis .
qed

lemma length_put_bytes:
  "offset + length bs \<le> length buf \<Longrightarrow> length (put_bytes buf offset bs) = length buf"
  by (simp add: put_bytes_def)

lemma take_put_bytes:
  "n \<le> offset \<Longrightarrow> offset \<le> length buf \<Longrightarrow> take n (put_bytes buf offset bs) = take n buf"
  by (simp add: put_bytes_def)

lemma py_slice_put_bytes:
  "offset + length bs \<le> length buf \<Longrightarrow> py_slice (put_bytes buf offset bs) offset (offset + length bs) = bs"
  by (simp add: put_bytes_def py_slice_def)

lemma nth_put_bytes_before:
  "j < offset \<Longrightarrow> offset \<le> length buf \<Longrightarrow> put_bytes buf offset bs ! j = buf ! j"
  by (simp add: put_bytes_def nth_append)

lemma write_children_ok:
  "36 + 3 * (k + length cs) \<le> length buf \<Longrightarrow> list_all (\<lambda>(c, i). i \<le> 65535) cs \<Longrightarrow>
   \<exists>buf'. write_children buf (enumerate k cs) = Inr buf' \<and> length buf' = length buf \<and>
     take (36 + 3 * k) buf' = take (36 + 3 * k) buf \<and>
     (\<forall>acc. read_children buf' [k..<k + length cs] acc = Inr (acc @ cs))"
proof (induction cs arbitrary: buf k)
  case Nil
  then show ?case by simp
next
  case (Cons x rest)
  obtain c i where x: "x = (c, i)" by (cases x)
  let ?off = "36 + k * 3"
  let ?b1 = "put_bytes (buf[?off := c]) (?off + 1) (le_u16_bytes i)"
  from Cons.prems x have i: "i \<le> 65535" and rest: "list_all (\<lambda>(c, i). i \<le> 65535) rest"
    and len: "36 + 3 * (Suc k + length rest) \<le> length buf" by simp_all
  have lb1: "length ?b1 = length buf" using len by (simp add: length_put_bytes le_u16_bytes_def)
  have pk: "struct_pack_into_H (buf[?off := c]) (?off + 1) i = Inr ?b1"
    using len i by (simp add: struct_pack_into_H_def)
  from Cons.IH[of "Suc k" ?b1] len rest lb1
  obtain buf' where w: "write_children ?b1 (enumerate (Suc k) rest) = Inr buf'"
    and l: "length buf' = length buf"
    and t: "take (36 + 3 * Suc k) buf' = take (36 + 3 * Suc k) ?b1"
    and r: "\<And>acc. read_children buf' [Suc k..<Suc k + length rest] acc = Inr (acc @ rest)"
    by auto
  have t0: "take ?off buf' = take ?off buf"
  proof -
    have "take ?off (take (36 + 3 * Suc k) buf') = take ?off (take (36 + 3 * Suc k) ?b1)"
      by (simp only: t)
    then have "take ?off buf' = take ?off ?b1" by (simp add: min_def)
    also have "\<dots> = take ?off buf" using len by (simp add: take_put_bytes)
    finally show ?thesis .
  qed
  have c: "buf' ! ?off = c"
  proof -
    have "buf' ! ?off = take (36 + 3 * Suc k) buf' ! ?off" by simp
    also have "\<dots> = take (36 + 3 * Suc k) ?b1 ! ?off" by (simp only: t)
    also have "\<dots> = ?b1 ! ?off" by simp
    also have "\<dots> = c" using len by (simp add: nth_put_bytes_before)
    finally show ?thesis .
  qed
  have sl: "py_slice buf' (?off + 1) (?off + 3) = le_u16_bytes i"
  proof -
    have "py_slice buf' (?off + 1) (?off + 3) = py_slice ?b1 (?off + 1) (?off + 3)"
      by (rule py_slice_take_eq) (use t in \<open>simp add: algebra_simps\<close>)
    also have "\<dots> = le_u16_bytes i"
      using py_slice_put_bytes[of "?off + 1" "le_u16_bytes i" "buf[?off := c]"] len
      by (simp add: le_u16_bytes_def)
    finally show ?thesis .
  qed
  have up: "[k..<k + length (x # rest)] = k # [Suc k..<Suc k + length rest]"
    by (subst upt_rec) simp
  have w': "write_children buf (enumerate k (x # rest)) = Inr buf'"
    using len pk w by (simp add: x)
  have r': "read_children buf' [k..<k + length (x # rest)] acc = Inr (acc @ x # rest)" for acc
    unfolding up using len l r[of "acc @ [(c, i)]"] c sl
    by (simp add: x u16_roundtrip i del: upt_Suc)
  have t0': "take (36 + 3 * k) buf' = take (36 + 3 * k) buf"
    using t0 by (simp add: mult.commute)
  show ?case using w' l t0' r' by blast
qed

lemma nth_take_eq: "take n xs = take n ys \<Longrightarrow> j < n \<Longrightarrow> xs ! j = ys ! j"
  by (metis nth_take)

lemma take_take_eq: "take n xs = take n ys \<Longrightarrow> m \<le> n \<Longrightarrow> take m xs = take m ys"
  by (metis min.absorb1 take_take)

lemma encode_decode:
  assumes ch: "length ch = 1" and nv: "length vs \<le> 8"
    and vs: "list_all (\<lambda>v. 0 \<le> v \<and> v \<le> 4294967295) vs"
    and nc: "length cs \<le> 255" and cs: "list_all (\<lambda>(c, i). i \<le> 65535) cs"
  shows "\<exists>buf. encode_record ch t vs cs = Inr buf \<and> length buf = NODE_SIZE \<and>
           decode_record buf =
             Inr (Some \<lparr>node_char = ch, is_terminal = t, node_values = vs, children = cs\<rparr>)"
proof -
  from ch obtain c where c: "ch = [c]" by (cases ch) auto
  define b0 where "b0 = ch @ drop 1 (replicate NODE_SIZE 0)"
  define bA where "bA = b0[1 := (if t then 1 else 0), 2 := of_nat (length vs)]"
  let ?V = "concat (map le_u32_bytes vs)"
  define b1 where "b1 = put_bytes bA 3 ?V"
  let ?bB = "b1[35 := of_nat (length cs)]"
  have lV: "length ?V = 4 * length vs" by (rule length_le_u32_concat)
  have l0: "length b0 = 1024" by (simp add: b0_def c NODE_SIZE_def)
  have lA: "length bA = 1024" by (simp add: bA_def l0)
  have l1: "length b1 = 1024" using nv lV lA by (simp add: b1_def length_put_bytes)
  have A0: "bA ! 0 = c" by (simp add: bA_def b0_def c)
  have A1: "bA ! 1 = (if t then 1 else 0)" using l0 by (simp add: bA_def)
  have A2: "bA ! 2 = of_nat (length vs)" using l0 by (simp add: bA_def)
  have nex: "\<not> list_ex (\<lambda>v. v < 0 \<or> 4294967295 < v) vs"
    using vs by (auto simp: list_ex_iff list_all_iff)
  have pk: "struct_pack_into_I bA 3 vs = Inr b1"
    using nv nex lA by (simp add: struct_pack_into_I_def b1_def)
  have "36 + 3 * (0 + length cs) \<le> length ?bB" using nc l1 by simp
  from write_children_ok[OF this cs] l1
  obtain buf where w: "write_children ?bB (enumerate 0 cs) = Inr buf"
    and l: "length buf = 1024" and t36: "take 36 buf = take 36 ?bB"
    and r: "read_children buf [0..<length cs] [] = Inr cs"
    by auto
  have enc: "encode_record ch t vs cs = Inr buf"
    unfolding encode_record_def Let_def b0_def[symmetric] bA_def[symmetric]
    using nv nc l0 l1 w by (simp add: pk)
  have b0: "buf ! 0 = c"
    using nth_take_eq[OF t36, of 0] lA A0 by (simp add: b1_def nth_put_bytes_before)
  have b1: "buf ! 1 = (if t then 1 else 0)"
    using nth_take_eq[OF t36, of 1] lA A1 by (simp add: b1_def nth_put_bytes_before)
  have b2: "buf ! 2 = of_nat (length vs)"
    using nth_take_eq[OF t36, of 2] lA A2 by (simp add: b1_def nth_put_bytes_before)
  have b35: "buf ! 35 = of_nat (length cs)"
    using nth_take_eq[OF t36, of 35] l1 by simp
  have sl: "py_slice buf 3 (3 + 4 * length vs) = ?V"
  proof -
    have "take (3 + 4 * length vs) buf = take (3 + 4 * length vs) ?bB"
      using take_take_eq[OF t36] nv by simp
    also have "\<dots> = take (3 + 4 * length vs) b1" using nv by simp
    finally have "py_slice buf 3 (3 + 4 * length vs) = py_slice b1 3 (3 + 4 * length vs)"
      by (rule py_slice_take_eq)
    also have "\<dots> = ?V"
      using py_slice_put_bytes[of 3 ?V bA] nv lV lA by (simp add: b1_def)
    finally show ?thesis .
  qed
  have u1: "unat (of_nat (length vs) :: byte) = length vs" using nv by (simp add: unat_of_nat)
  have u2: "unat (of_nat (length cs) :: byte) = length cs" using nc by (simp add: unat_of_nat)
  have s0: "py_slice buf 0 1 = [c]"
    using l b0 by (cases buf) (simp_all add: py_slice_def)
  have ne: "buf \<noteq> []" using l by auto
  have dec: "decode_record buf =
      Inr (Some \<lparr>node_char = ch, is_terminal = t, node_values = vs, children = cs\<rparr>)"
    using l ne s0 b1
    by (simp add: decode_record_def b2 b35 u1 u2 sl struct_unpack_I_def lV
        u32_roundtrip[OF vs] r c)
  show ?thesis using enc l dec by (simp add: NODE_SIZE_def)
qed

lemma write_children_fail:
  "36 + 3 * (k + length cs) \<le> length buf \<Longrightarrow> list_ex (\<lambda>(c, i). 65535 < i) cs \<Longrightarrow>
   write_children buf (enumerate k cs) = Inl StructError"
proof (induction cs arbitrary: buf k)
  case Nil
  then show ?case by simp
next
  case (Cons x rest)
  obtain c i where x: "x = (c, i)" by (cases x)
  from Cons.prems have len: "36 + 3 * (Suc k + length rest) \<le> length buf" by simp
  show ?case
  proof (cases "65535 < i")
    case True
    then show ?thesis using len by (simp add: x struct_pack_into_H_def)
  next
    case False
    let ?b1 = "put_bytes (buf[36 + k * 3 := c]) (36 + k * 3 + 1) (le_u16_bytes i)"
    have lb1: "length ?b1 = length buf" using len by (simp add: length_put_bytes le_u16_bytes_def)
    have pk: "struct_pack_into_H (buf[36 + k * 3 := c]) (36 + k * 3 + 1) i = Inr ?b1"
      using len False by (simp add: struct_pack_into_H_def)
    from False Cons.prems x have "list_ex (\<lambda>(c, i). 65535 < i) rest" by simp
    from Cons.IH[of "Suc k" ?b1, OF _ this] len lb1
    have "write_children ?b1 (enumerate (Suc k) rest) = Inl StructError" by simp
    then show ?thesis using len pk by (simp add: x)
  qed
qed

lemma encode_record_fail:
  assumes ch: "length ch = 1" and e: "encode_error vs cs = Some e"
  shows "encode_record ch t vs cs = Inl e"
proof -
  define b0 where "b0 = ch @ drop 1 (replicate NODE_SIZE 0)"
  define bA where "bA = b0[1 := (if t then 1 else 0), 2 := of_nat (length vs)]"
  have l0: "length b0 = 1024" using ch by (simp add: b0_def NODE_SIZE_def)
  have lA: "length bA = 1024" by (simp add: bA_def l0)
  have unf: "encode_record ch t vs cs =
      (if 255 < length vs then Inl ValueError
       else case struct_pack_into_I bA 3 vs of
          Inl e \<Rightarrow> Inl e
        | Inr buf1 \<Rightarrow>
            if length buf1 \<le> 35 then Inl IndexError
            else if 255 < length cs then Inl ValueError
            else write_children (buf1[35 := of_nat (length cs)]) (enumerate 0 cs))"
    unfolding encode_record_def Let_def b0_def[symmetric] bA_def[symmetric]
    by (simp add: l0)
  show ?thesis
  proof (cases "255 < length vs")
    case True
    then show ?thesis using e by (simp add: unf encode_error_def)
  next
    case nv: False
    show ?thesis
    proof (cases "list_ex (\<lambda>v. v < 0 \<or> 4294967295 < v) vs")
      case True
      then show ?thesis using e nv by (simp add: unf encode_error_def struct_pack_into_I_def)
    next
      case ok: False
      define b1 where "b1 = put_bytes bA 3 (concat (map le_u32_bytes vs))"
      have l1: "length b1 = 1024"
        using nv lA by (simp add: b1_def length_put_bytes length_le_u32_concat)
      have pk: "struct_pack_into_I bA 3 vs = Inr b1"
        using nv ok lA by (simp add: struct_pack_into_I_def b1_def)
      show ?thesis
      proof (cases "255 < length cs")
        case True
        then show ?thesis using e nv ok l1 by (simp add: unf encode_error_def pk)
      next
        case nc: False
        with e nv ok have bad: "list_ex (\<lambda>(c, i). 65535 < i) cs" and e': "e = StructError"
          by (auto simp: encode_error_def split: if_splits)
        have "36 + 3 * (0 + length cs) \<le> length (b1[35 := of_nat (length cs)])"
          using nc l1 by simp
        from write_children_fail[OF this bad] show ?thesis
          using nv nc l1 by (simp add: unf pk e')
      qed
    qed
  qed
qed

lemma length_le_u32s: "length (le_u32s bs) = length bs div 4"
  by (induction bs rule: le_u32s.induct) simp_all

lemma struct_unpack_H_two: "length bs = 2 \<Longrightarrow> \<exists>n. struct_unpack_H bs = Inr n \<and> n \<le> 65535"
proof -
  assume "length bs = 2"
  then obtain b0 b1 where bs: "bs = [b0, b1]"
    by (cases bs; cases "tl bs") auto
  have "unat b0 < 256" "unat b1 < 256"
    using unsigned_less[of b0] unsigned_less[of b1] by simp_all
  then show ?thesis by (simp add: bs)
qed

lemma read_children_total:
  "36 + 3 * (k + n) \<le> length data \<Longrightarrow>
   \<exists>cs. read_children data [k..<k + n] acc = Inr cs \<and> length cs = length acc + n"
proof (induction n arbitrary: k acc)
  case 0
  then show ?case by simp
next
  case (Suc n)
  have up: "[k..<k + Suc n] = k # [Suc k..<Suc k + n]" by (subst upt_rec) simp
  have "length (py_slice data (36 + k * 3 + 1) (36 + k * 3 + 3)) = 2"
    using Suc.prems by (simp add: py_slice_def)
  from struct_unpack_H_two[OF this] obtain i where
    i: "struct_unpack_H (py_slice data (36 + k * 3 + 1) (36 + k * 3 + 3)) = Inr i" by blast
  from Suc.prems have "36 + 3 * (Suc k + n) \<le> length data" by simp
  from Suc.IH[OF this, of "acc @ [(data ! (36 + k * 3), i)]"]
  obtain cs where "read_children data [Suc k..<Suc k + n] (acc @ [(data ! (36 + k * 3), i)]) = Inr cs"
    and "length cs = length acc + Suc n" by auto
  then show ?case unfolding up using Suc.prems i by (simp del: upt_Suc)
qed

lemma decode_record_total:
  assumes "length data = NODE_SIZE"
  shows "\<exists>nd. decode_record data = Inr (Some nd) \<and>
           length (node_values nd) = unat (data ! 2) \<and> length (children nd) = unat (data ! 35)"
proof -
  from assms have l: "length data = 1024" by (simp add: NODE_SIZE_def)
  have nv: "unat (data ! 2) < 256" using unsigned_less[of "data ! 2"] by simp
  have nc: "unat (data ! 35) < 256" using unsigned_less[of "data ! 35"] by simp
  have ls: "length (py_slice data 3 (3 + 4 * unat (data ! 2))) = 4 * unat (data ! 2)"
    using nv l by (simp add: py_slice_def)
  have "36 + 3 * (0 + unat (data ! 35)) \<le> length data" using nc l by simp
  from read_children_total[OF this, of "[]"]
  obtain cs where cs: "read_children data [0..<unat (data ! 35)] [] = Inr cs"
    and lcs: "length cs = unat (data ! 35)" by auto
  have ne: "data \<noteq> []" using l by auto
  show ?thesis
    using l ne by (simp add: decode_record_def struct_unpack_I_def ls cs lcs length_le_u32s)
qed

section \<open>Files of records\<close>

lemma length_record_of [simp]: "length (record_of nd) = NODE_SIZE"
  by (simp add: record_of_def split: sum.splits)

lemma wf_node_encode:
  assumes "wf_node nd"
  shows "encode_record (node_char nd) (is_terminal nd) (node_values nd) (children nd) = Inr (record_of nd)"
    and "decode_record (record_of nd) = Inr (Some nd)"
proof -
  from assms encode_decode[of "node_char nd" "node_values nd" "children nd" "is_terminal nd"]
  obtain buf where e: "encode_record (node_char nd) (is_terminal nd) (node_values nd) (children nd) = Inr buf"
    and l: "length buf = NODE_SIZE" and d: "decode_record buf = Inr (Some nd)"
    by (auto simp: wf_node_def MAX_VALUES_def)
  have r: "record_of nd = buf" by (simp add: record_of_def e l)
  show "encode_record (node_char nd) (is_terminal nd) (node_values nd) (children nd) = Inr (record_of nd)"
    by (simp add: r e)
  show "decode_record (record_of nd) = Inr (Some nd)" by (simp add: r d)
qed

lemma length_file_of [simp]: "length (file_of ns) = length ns * NODE_SIZE"
  by (induction ns) (simp_all add: file_of_def)

lemma file_of_Nil [simp]: "file_of [] = []"
  by (simp add: file_of_def)

lemma decode_record_Nil: "decode_record [] = Inr None"
  by (simp add: decode_record_def)

lemma file_of_Cons: "file_of (nd # ns) = record_of nd @ file_of ns"
  by (simp add: file_of_def)

lemma file_of_append: "file_of (ns @ ms) = file_of ns @ file_of ms"
  by (simp add: file_of_def)

lemma drop_file_of: "drop (m * NODE_SIZE) (file_of ns) = file_of (drop m ns)"
proof (induction ns arbitrary: m)
  case Nil
  then show ?case by (simp add: file_of_def)
next
  case (Cons nd ns)
  show ?case
  proof (cases m)
    case 0
    then show ?thesis by simp
  next
    case (Suc k)
    then show ?thesis using Cons.IH[of k] by (simp add: file_of_Cons)
  qed
qed

lemma take_file_of: "take (m * NODE_SIZE) (file_of ns) = file_of (take m ns)"
proof (induction ns arbitrary: m)
  case Nil
  then show ?case by (simp add: file_of_def)
next
  case (Cons nd ns)
  show ?case
  proof (cases m)
    case 0
    then show ?thesis by (simp add: file_of_def)
  next
    case (Suc k)
    then show ?thesis using Cons.IH[of k] by (simp add: file_of_Cons)
  qed
qed

lemma chunk_file_of:
  "take NODE_SIZE (drop (m * NODE_SIZE) (file_of ns)) =
     (if m < length ns then record_of (ns ! m) else [])"
proof (cases "m < length ns")
  case True
  then have "drop m ns = ns ! m # drop (Suc m) ns" by (simp add: Cons_nth_drop_Suc)
  then show ?thesis using True by (simp add: drop_file_of file_of_Cons)
next
  case False
  then show ?thesis by (simp add: drop_file_of)
qed

lemma write_file_of:
  assumes "n \<le> length ns"
  shows "take (n * NODE_SIZE) (file_of ns) @ replicate (n * NODE_SIZE - length (file_of ns)) 0 @
           record_of nd @ drop (n * NODE_SIZE + length (record_of nd)) (file_of ns) =
         file_of (put_node n nd ns)"
proof -
  have d: "drop (n * NODE_SIZE + NODE_SIZE) (file_of ns) = file_of (drop (Suc n) ns)"
    using drop_file_of[of "Suc n" ns] by (simp add: add.commute)
  have z: "n * NODE_SIZE - length ns * NODE_SIZE = 0" using assms by simp
  have "put_node n nd ns = take n ns @ nd # drop (Suc n) ns"
    using assms by (cases "n < length ns") (simp_all add: put_node_def upd_conv_take_nth_drop)
  then show ?thesis
    by (simp add: take_file_of d z file_of_append file_of_Cons)
qed

lemma read_node_file_of:
  assumes "content s = file_of ns" and "m < length ns \<Longrightarrow> wf_node (ns ! m)"
  shows "fst (read_node m s) = (if m < length ns then Inr (Some (ns ! m)) else Inr None)"
  using assms
  by (simp add: read_node_def file_read_def file_seek_def Let_def chunk_file_of wf_node_encode(2)
      decode_record_Nil)

lemma content_read_node [simp]: "content (snd (read_node m s)) = content s"
  by (simp add: read_node_def file_read_def file_seek_def Let_def)

lemma write_node_file_of:
  assumes "content s = file_of ns" and "n \<le> length ns"
    and "wf_node \<lparr>node_char = ch, is_terminal = t, node_values = vs, children = cs\<rparr>"
  shows "fst (write_node n ch t vs cs s) = Inr ()"
    and "content (snd (write_node n ch t vs cs s)) =
           file_of (put_node n \<lparr>node_char = ch, is_terminal = t, node_values = vs, children = cs\<rparr> ns)"
proof -
  let ?nd = "\<lparr>node_char = ch, is_terminal = t, node_values = vs, children = cs\<rparr>"
  have e: "encode_record ch t vs cs = Inr (record_of ?nd)"
    using wf_node_encode(1)[OF assms(3)] by simp
  show "fst (write_node n ch t vs cs s) = Inr ()" by (simp add: write_node_def e)
  show "content (snd (write_node n ch t vs cs s)) = file_of (put_node n ?nd ns)"
    using write_file_of[OF assms(2), of ?nd]
    by (simp add: write_node_def e file_write_def file_seek_def Let_def assms(1))
qed

lemma write_node_fail:
  assumes "length ch = 1" and "encode_error vs cs = Some e"
  shows "write_node n ch t vs cs s = (Inl e, s)"
  by (simp add: write_node_def encode_record_fail[OF assms])

lemma get_next_node_id_file_of:
  "content s = file_of ns \<Longrightarrow> fst (get_next_node_id s) = length ns"
  by (simp add: get_next_node_id_def file_seek_def Let_def NODE_SIZE_def)

lemma content_get_next_node_id [simp]: "content (snd (get_next_node_id s)) = content s"
  by (simp add: get_next_node_id_def file_seek_def Let_def)

section \<open>Reading leaves the file alone\<close>

lemma content_descend [simp]: "content (snd (descend bs n s)) = content s"
proof (induction bs arbitrary: n s)
  case Nil
  then show ?case by simp
next
  case (Cons c cs)
  obtain r s1 where rd: "read_node n s = (r, s1)" by (cases "read_node n s")
  then have c1: "content s1 = content s" using content_read_node[of n s] by simp
  show ?case using Cons.IH c1 by (simp add: rd split: sum.splits option.splits)
qed

lemma content_lookup: "content (snd (lookup word s)) = content s"
proof (cases "encode_utf8 word")
  case (Inl e)
  then show ?thesis by (simp add: lookup_def)
next
  case (Inr bs)
  obtain r s1 where d: "descend bs 0 s = (r, s1)" by (cases "descend bs 0 s")
  then have c1: "content s1 = content s" using content_descend[of bs 0 s] by simp
  show ?thesis
  proof (cases r)
    case (Inl e)
    then show ?thesis by (simp add: lookup_def Inr d c1)
  next
    case r: (Inr x)
    show ?thesis
    proof (cases x)
      case None
      then show ?thesis by (simp add: lookup_def Inr d r c1)
    next
      case (Some node_id)
      obtain r2 s2 where rd: "read_node node_id s1 = (r2, s2)" by (cases "read_node node_id s1")
      then have c2: "content s2 = content s1" using content_read_node[of node_id s1] by simp
      show ?thesis by (simp add: lookup_def Inr d r Some rd c1 c2 split: sum.splits option.splits)
    qed
  qed
qed

lemma content_dfs:
  "content (snd (dfs depth current_id path results s)) = content s"
  "content (snd (dfs_children depth cs path results s)) = content s"
proof (induction depth current_id path results s and depth cs path results s
    rule: dfs_dfs_children.induct)
  case (1 current_id path results s)
  then show ?case by simp
next
  case (2 depth current_id path results s)
  obtain r s1 where rd: "read_node current_id s = (r, s1)" by (cases "read_node current_id s")
  then have c1: "content s1 = content s" using content_read_node[of current_id s] by simp
  show ?case
  proof (cases r)
    case (Inl e)
    then show ?thesis by (simp add: rd c1)
  next
    case r: (Inr x)
    show ?thesis
    proof (cases x)
      case None
      then show ?thesis by (simp add: rd r c1)
    next
      case (Some nd)
      from "2.IH"[OF rd[symmetric] r Some] show ?thesis by (simp add: rd r Some c1)
    qed
  qed
next
  case (3 depth path results s)
  then show ?case by simp
next
  case (4 depth c child_id rest path results s)
  obtain r s1 where d: "dfs depth child_id (path @ [unat c]) results s = (r, s1)"
    by (cases "dfs depth child_id (path @ [unat c]) results s")
  from "4.IH"(1) d have c1: "content s1 = content s" by simp
  show ?case
  proof (cases r)
    case (Inl e)
    then show ?thesis by (simp add: d c1)
  next
    case (Inr results1)
    from "4.IH"(2)[OF d[symmetric] Inr] show ?thesis by (simp add: d Inr c1)
  qed
qed

lemma content_prefix_search: "content (snd (prefix_search depth prefix s)) = content s"
proof (cases "encode_utf8 prefix")
  case (Inl e)
  then show ?thesis by (simp add: prefix_search_def)
next
  case (Inr bs)
  obtain r s1 where d: "descend bs 0 s = (r, s1)" by (cases "descend bs 0 s")
  then have c1: "content s1 = content s" using content_descend[of bs 0 s] by simp
  show ?thesis
    by (cases r; cases "projr r") (simp_all add: prefix_search_def Inr d c1 content_dfs(1))
qed

lemma read_node_unfold:
  "fst (read_node n s) = decode_record (take NODE_SIZE (drop (n * NODE_SIZE) (content s)))"
  by (simp add: read_node_def file_read_def file_seek_def Let_def)

lemma read_node_past_end:
  "length (content s) \<le> node_id * NODE_SIZE \<Longrightarrow> fst (read_node node_id s) = Inr None"
  by (simp add: read_node_unfold decode_record_Nil)

lemma read_node_full_record:
  assumes h: "(node_id + 1) * NODE_SIZE \<le> length (content s)"
  shows "\<exists>nd. fst (read_node node_id s) = Inr (Some nd) \<and>
           length (node_values nd) = unat (content s ! (node_id * NODE_SIZE + 2)) \<and>
           length (children nd) = unat (content s ! (node_id * NODE_SIZE + 35))"
proof -
  let ?data = "take NODE_SIZE (drop (node_id * NODE_SIZE) (content s))"
  from h have l: "length ?data = NODE_SIZE" by simp
  from h have n2: "?data ! 2 = content s ! (node_id * NODE_SIZE + 2)"
    and n35: "?data ! 35 = content s ! (node_id * NODE_SIZE + 35)"
    by (simp_all add: NODE_SIZE_def)
  from decode_record_total[OF l] show ?thesis by (simp add: read_node_unfold n2 n35)
qed

section \<open>The invariant of the node list\<close>

lemma wf_node_encode_error:
  "wf_node nd \<Longrightarrow> encode_error (node_values nd) (children nd) = None"
  by (auto simp: wf_node_def encode_error_def MAX_VALUES_def list_ex_iff list_all_iff)

lemma encode_error_None_wf:
  "encode_error vs cs = None \<Longrightarrow> length ch = 1 \<Longrightarrow> length vs \<le> MAX_VALUES \<Longrightarrow>
   wf_node \<lparr>node_char = ch, is_terminal = t, node_values = vs, children = cs\<rparr>"
  by (auto simp: wf_node_def encode_error_def list_ex_iff list_all_iff not_less split: if_splits)

lemma write_node_refines:
  assumes c: "content s = file_of ns" and n: "n \<le> length ns"
    and ch: "length ch = 1" and nv: "length vs \<le> MAX_VALUES"
  shows "fst (write_node n ch t vs cs s) =
           fst (write_nodes n \<lparr>node_char = ch, is_terminal = t, node_values = vs, children = cs\<rparr> ns)"
    and "content (snd (write_node n ch t vs cs s)) =
           file_of (snd (write_nodes n \<lparr>node_char = ch, is_terminal = t, node_values = vs, children = cs\<rparr> ns))"
proof -
  let ?nd = "\<lparr>node_char = ch, is_terminal = t, node_values = vs, children = cs\<rparr>"
  show "fst (write_node n ch t vs cs s) = fst (write_nodes n ?nd ns)"
  proof (cases "encode_error vs cs")
    case None
    from encode_error_None_wf[OF None ch nv] have "wf_node ?nd" .
    from write_node_file_of(1)[OF c n this] show ?thesis by (simp add: write_nodes_def None)
  next
    case (Some e)
    then show ?thesis by (simp add: write_nodes_def write_node_fail[OF ch Some])
  qed
  show "content (snd (write_node n ch t vs cs s)) = file_of (snd (write_nodes n ?nd ns))"
  proof (cases "encode_error vs cs")
    case None
    from encode_error_None_wf[OF None ch nv] have "wf_node ?nd" .
    from write_node_file_of(2)[OF c n this] show ?thesis by (simp add: write_nodes_def None)
  next
    case (Some e)
    then show ?thesis by (simp add: write_nodes_def write_node_fail[OF ch Some] c)
  qed
qed

lemma length_add_value: "length vs \<le> MAX_VALUES \<Longrightarrow> length (add_value vs v) \<le> MAX_VALUES"
  by (simp add: add_value_def)

lemma distinct_add_value: "distinct vs \<Longrightarrow> distinct (add_value vs v)"
  by (simp add: add_value_def)

lemma find_child_None_iff: "find_child cs c = None \<longleftrightarrow> c \<notin> fst ` set cs"
  by (induction cs) (auto split: if_splits)

lemma find_child_map_of: "find_child cs c = map_of cs c"
  by (induction cs) auto

lemma node_inv_mono: "node_inv n nd \<Longrightarrow> n \<le> m \<Longrightarrow> node_inv m nd"
  by (auto simp: node_inv_def list_all_iff)

lemma trie_inv_nth: "trie_inv ns \<Longrightarrow> m < length ns \<Longrightarrow> node_inv (length ns) (ns ! m)"
  by (simp add: trie_inv_def list_all_length)

lemma trie_inv_wf: "trie_inv ns \<Longrightarrow> m < length ns \<Longrightarrow> wf_node (ns ! m)"
  using trie_inv_nth[of ns m] by (simp add: node_inv_def)

lemma trie_inv_update:
  assumes "trie_inv ns" and "m < length ns" and "node_inv (length ns) nd"
  shows "trie_inv (ns[m := nd])"
  using assms
  by (auto simp: trie_inv_def list_all_length nth_list_update)

lemma trie_inv_append:
  assumes "trie_inv ns" and "length ns \<le> 65535" and "node_inv (Suc (length ns)) nd"
  shows "trie_inv (ns @ [nd])"
  using assms
  by (auto simp: trie_inv_def list_all_length nth_append intro: node_inv_mono)

lemma node_inv_fresh:
  "node_inv n \<lparr>node_char = [c], is_terminal = False, node_values = [], children = []\<rparr>"
  by (simp add: node_inv_def wf_node_def)

lemma node_inv_add_child:
  assumes nd: "node_inv n nd" and nf: "find_child (children nd) c = None"
    and e: "encode_error (node_values nd) (children nd @ [(c, n)]) = None"
  shows "node_inv (Suc n) (nd\<lparr>children := children nd @ [(c, n)]\<rparr>)"
proof -
  from nd have wf: "wf_node nd" by (simp add: node_inv_def)
  have "wf_node \<lparr>node_char = node_char nd, is_terminal = is_terminal nd,
      node_values = node_values nd, children = children nd @ [(c, n)]\<rparr>"
    using wf by (intro encode_error_None_wf[OF e]) (simp_all add: wf_node_def)
  then have w: "wf_node (nd\<lparr>children := children nd @ [(c, n)]\<rparr>)"
    by (simp add: wf_node_def)
  from nf have "c \<notin> fst ` set (children nd)" by (simp add: find_child_None_iff)
  with nd w show ?thesis by (auto simp: node_inv_def list_all_iff)
qed

lemma encode_error_last_id:
  "encode_error vs (cs @ [(c, n)]) = None \<Longrightarrow> n \<le> 65535"
  by (auto simp: encode_error_def list_ex_iff split: if_splits)

lemma node_inv_set_values:
  assumes nd: "node_inv n nd"
    and e: "encode_error (add_value (node_values nd) v) (children nd) = None"
  shows "node_inv n (nd\<lparr>is_terminal := True, node_values := add_value (node_values nd) v\<rparr>)"
proof -
  from nd have wf: "wf_node nd" by (simp add: node_inv_def)
  have "wf_node \<lparr>node_char = node_char nd, is_terminal = True,
      node_values = add_value (node_values nd) v, children = children nd\<rparr>"
    using wf length_add_value[of "node_values nd" v]
    by (intro encode_error_None_wf[OF e]) (simp_all add: wf_node_def)
  then have w: "wf_node (nd\<lparr>is_terminal := True, node_values := add_value (node_values nd) v\<rparr>)"
    by (simp add: wf_node_def)
  with nd show ?thesis by (auto simp: node_inv_def distinct_add_value)
qed

lemma write_nodes_fresh:
  "length ns = n \<Longrightarrow> write_nodes n (fresh_node c) ns = (Inr (), ns @ [fresh_node c])"
  by (simp add: write_nodes_def fresh_node_def encode_error_def put_node_def)

lemma find_or_create_child_nodes_cases:
  obtains
    (absent) "length ns \<le> p" "find_or_create_child_nodes p c ns = (Inl TypeError, ns)"
  | (found) x where "p < length ns" "find_child (children (ns ! p)) c = Some x"
      "find_or_create_child_nodes p c ns = (Inr x, ns)"
  | (failed) e where "p < length ns" "find_child (children (ns ! p)) c = None"
      "encode_error (node_values (ns ! p)) (children (ns ! p) @ [(c, length ns)]) = Some e"
      "find_or_create_child_nodes p c ns = (Inl e, ns)"
  | (created) "p < length ns" "find_child (children (ns ! p)) c = None"
      "encode_error (node_values (ns ! p)) (children (ns ! p) @ [(c, length ns)]) = None"
      "find_or_create_child_nodes p c ns =
         (Inr (length ns), ns[p := add_child (ns ! p) c (length ns)] @ [fresh_node c])"
proof (cases "p < length ns")
  case False
  then have "find_or_create_child_nodes p c ns = (Inl TypeError, ns)"
    by (simp add: find_or_create_child_nodes_def read_nodes_def)
  with False show ?thesis using absent by simp
next
  case p: True
  show ?thesis
  proof (cases "find_child (children (ns ! p)) c")
    case (Some x)
    then have "find_or_create_child_nodes p c ns = (Inr x, ns)"
      using p by (simp add: find_or_create_child_nodes_def read_nodes_def)
    with p Some show ?thesis using found by simp
  next
    case None
    show ?thesis
    proof (cases "encode_error (node_values (ns ! p)) (children (ns ! p) @ [(c, length ns)])")
      case (Some e)
      then have "find_or_create_child_nodes p c ns = (Inl e, ns)"
        using p None by (simp add: find_or_create_child_nodes_def read_nodes_def write_nodes_def)
      with p None Some show ?thesis using failed by simp
    next
      case e: None
      have w1: "write_nodes p (add_child (ns ! p) c (length ns)) ns =
          (Inr (), ns[p := add_child (ns ! p) c (length ns)])"
        using p e by (simp add: write_nodes_def add_child_def put_node_def)
      have "find_or_create_child_nodes p c ns =
         (Inr (length ns), ns[p := add_child (ns ! p) c (length ns)] @ [fresh_node c])"
        using p None w1
          write_nodes_fresh[of "ns[p := add_child (ns ! p) c (length ns)]" "length ns" c]
        by (simp add: find_or_create_child_nodes_def read_nodes_def add_child_def[symmetric]
            fresh_node_def[symmetric])
      with p None e show ?thesis using created by simp
    qed
  qed
qed

lemma trie_inv_created:
  assumes inv: "trie_inv ns" and p: "p < length ns"
    and nf: "find_child (children (ns ! p)) c = None"
    and e: "encode_error (node_values (ns ! p)) (children (ns ! p) @ [(c, length ns)]) = None"
  shows "trie_inv (ns[p := add_child (ns ! p) c (length ns)] @ [fresh_node c])"
proof -
  let ?n = "length ns"
  have n: "?n \<le> 65535" using encode_error_last_id[OF e] .
  have a: "node_inv (Suc ?n) (add_child (ns ! p) c ?n)"
    unfolding add_child_def using trie_inv_nth[OF inv p] nf e by (rule node_inv_add_child)
  have all: "list_all (node_inv (Suc ?n)) ns"
    using inv by (auto simp: trie_inv_def list_all_iff intro: node_inv_mono)
  have "list_all (node_inv (Suc ?n)) (ns[p := add_child (ns ! p) c ?n] @ [fresh_node c])"
    using all a p node_inv_fresh[of "Suc ?n" c]
    by (auto simp: list_all_length nth_append nth_list_update fresh_node_def)
  then show ?thesis using n by (simp add: trie_inv_def)
qed

lemma trie_inv_find_or_create_child_nodes:
  "trie_inv ns \<Longrightarrow> trie_inv (snd (find_or_create_child_nodes p c ns))"
  by (cases p c ns rule: find_or_create_child_nodes_cases) (simp_all add: trie_inv_created)

lemma trie_inv_insert_loop_nodes:
  "trie_inv ns \<Longrightarrow> trie_inv (snd (insert_loop_nodes bs n ns))"
proof (induction bs arbitrary: n ns)
  case Nil
  then show ?case by simp
next
  case (Cons c cs)
  obtain r ns1 where f: "find_or_create_child_nodes n c ns = (r, ns1)"
    by (cases "find_or_create_child_nodes n c ns")
  with trie_inv_find_or_create_child_nodes[OF Cons.prems, of n c] have "trie_inv ns1" by simp
  with Cons.IH show ?case by (cases r) (simp_all add: f)
qed

lemma trie_inv_write_values:
  assumes inv: "trie_inv ns" and x: "x < length ns"
  shows "trie_inv (snd (write_nodes x
            ((ns ! x)\<lparr>is_terminal := True, node_values := add_value (node_values (ns ! x)) v\<rparr>) ns))"
proof (cases "encode_error (add_value (node_values (ns ! x)) v) (children (ns ! x))")
  case None
  from node_inv_set_values[OF trie_inv_nth[OF inv x] None]
  show ?thesis using inv x by (simp add: write_nodes_def None put_node_def trie_inv_update)
next
  case (Some e)
  then show ?thesis using inv by (simp add: write_nodes_def)
qed

lemma trie_inv_insert_word_nodes:
  assumes "trie_inv ns"
  shows "trie_inv (snd (insert_word_nodes word v ns))"
proof (cases "encode_utf8 word")
  case (Inl e)
  then show ?thesis using assms by (simp add: insert_word_nodes_def)
next
  case (Inr bs)
  obtain r ns1 where l: "insert_loop_nodes bs 0 ns = (r, ns1)"
    by (cases "insert_loop_nodes bs 0 ns")
  with trie_inv_insert_loop_nodes[OF assms, of bs 0] have inv1: "trie_inv ns1" by simp
  show ?thesis
  proof (cases r)
    case (Inl e)
    then show ?thesis using inv1 by (simp add: insert_word_nodes_def Inr l)
  next
    case x: (Inr x)
    show ?thesis
    proof (cases "x < length ns1")
      case True
      from trie_inv_write_values[OF inv1 True, of v] show ?thesis
        using True by (simp add: insert_word_nodes_def Inr l x read_nodes_def)
    next
      case False
      then show ?thesis using inv1 by (simp add: insert_word_nodes_def Inr l x read_nodes_def)
    qed
  qed
qed

section \<open>The operations on the file follow those on the list\<close>

lemma read_node_repr:
  assumes "represents s ns"
  obtains s1 where "read_node m s = (Inr (read_nodes m ns), s1)" and "represents s1 ns"
proof -
  from assms have c: "content s = file_of ns" and inv: "trie_inv ns"
    by (simp_all add: represents_def)
  have "fst (read_node m s) = Inr (read_nodes m ns)"
    using read_node_file_of[OF c, of m] trie_inv_wf[OF inv, of m]
    by (simp add: read_nodes_def)
  moreover have "represents (snd (read_node m s)) ns"
    using c inv by (simp add: represents_def)
  ultimately show ?thesis using that[of "snd (read_node m s)"] by (cases "read_node m s") simp
qed

lemma get_next_node_id_repr:
  assumes "represents s ns"
  obtains s1 where "get_next_node_id s = (length ns, s1)" and "represents s1 ns"
proof -
  from assms have c: "content s = file_of ns" and inv: "trie_inv ns"
    by (simp_all add: represents_def)
  have "fst (get_next_node_id s) = length ns" using get_next_node_id_file_of[OF c] .
  moreover have "represents (snd (get_next_node_id s)) ns"
    using c inv by (simp add: represents_def)
  ultimately show ?thesis
    using that[of "snd (get_next_node_id s)"] by (cases "get_next_node_id s") simp
qed

lemma write_node_repr:
  assumes "content s = file_of ns" and "n \<le> length ns"
    and "length (node_char nd) = 1" and "length (node_values nd) \<le> MAX_VALUES"
  obtains s1 where
    "write_node n (node_char nd) (is_terminal nd) (node_values nd) (children nd) s =
       (fst (write_nodes n nd ns), s1)"
    and "content s1 = file_of (snd (write_nodes n nd ns))"
proof -
  have nd: "\<lparr>node_char = node_char nd, is_terminal = is_terminal nd,
             node_values = node_values nd, children = children nd\<rparr> = nd" by simp
  from write_node_refines[OF assms, of "is_terminal nd" "children nd"]
  show ?thesis
    using that[of "snd (write_node n (node_char nd) (is_terminal nd) (node_values nd) (children nd) s)"]
    by (cases "write_node n (node_char nd) (is_terminal nd) (node_values nd) (children nd) s")
      (simp add: nd)
qed

lemma find_or_create_child_refines:
  assumes r: "represents s ns"
  shows "fst (find_or_create_child p c s) = fst (find_or_create_child_nodes p c ns) \<and>
         represents (snd (find_or_create_child p c s)) (snd (find_or_create_child_nodes p c ns))"
proof -
  from r have inv: "trie_inv ns" by (simp add: represents_def)
  from read_node_repr[OF r, of p] obtain s1 where
    rd: "read_node p s = (Inr (read_nodes p ns), s1)" and r1: "represents s1 ns" by blast
  from get_next_node_id_repr[OF r1] obtain s2 where
    nx: "get_next_node_id s1 = (length ns, s2)" and r2: "represents s2 ns" by blast
  from r2 have c2: "content s2 = file_of ns" by (simp add: represents_def)
  show ?thesis
  proof (cases p c ns rule: find_or_create_child_nodes_cases)
    case absent
    then show ?thesis using r1 by (simp add: find_or_create_child_def rd read_nodes_def)
  next
    case (found x)
    then show ?thesis using r1 by (simp add: find_or_create_child_def rd read_nodes_def)
  next
    case (failed e)
    let ?nd = "add_child (ns ! p) c (length ns)"
    from trie_inv_wf[OF inv failed(1)] have wf: "wf_node (ns ! p)" .
    have w: "write_nodes p ?nd ns = (Inl e, ns)"
      using failed(3) by (simp add: write_nodes_def add_child_def)
    from write_node_repr[OF c2, of p ?nd] failed(1) wf obtain s3 where
      "write_node p (node_char ?nd) (is_terminal ?nd) (node_values ?nd) (children ?nd) s2 =
         (fst (write_nodes p ?nd ns), s3)"
      and "content s3 = file_of (snd (write_nodes p ?nd ns))"
      by (auto simp: add_child_def wf_node_def)
    then have w3: "write_node p (node_char (ns ! p)) (is_terminal (ns ! p)) (node_values (ns ! p))
          (children (ns ! p) @ [(c, length ns)]) s2 = (Inl e, s3)"
      and c3: "content s3 = file_of ns"
      by (simp_all add: w[unfolded add_child_def] add_child_def)
    show ?thesis
      using failed inv c3
      by (simp add: find_or_create_child_def rd read_nodes_def nx w3 represents_def)
  next
    case created
    let ?nd = "add_child (ns ! p) c (length ns)"
    let ?ns1 = "ns[p := ?nd]"
    from trie_inv_wf[OF inv created(1)] have wf: "wf_node (ns ! p)" .
    have w: "write_nodes p ?nd ns = (Inr (), ?ns1)"
      using created(1,3) by (simp add: write_nodes_def add_child_def put_node_def)
    from write_node_repr[OF c2, of p ?nd] created(1) wf obtain s3 where
      "write_node p (node_char ?nd) (is_terminal ?nd) (node_values ?nd) (children ?nd) s2 =
         (fst (write_nodes p ?nd ns), s3)"
      and "content s3 = file_of (snd (write_nodes p ?nd ns))"
      by (auto simp: add_child_def wf_node_def)
    then have w3: "write_node p (node_char (ns ! p)) (is_terminal (ns ! p)) (node_values (ns ! p))
          (children (ns ! p) @ [(c, length ns)]) s2 = (Inr (), s3)"
      and c3: "content s3 = file_of ?ns1"
      by (simp_all add: w[unfolded add_child_def] add_child_def)
    from write_node_repr[OF c3, of "length ns" "fresh_node c"] obtain s4 where
      "write_node (length ns) (node_char (fresh_node c)) (is_terminal (fresh_node c))
          (node_values (fresh_node c)) (children (fresh_node c)) s3 =
         (fst (write_nodes (length ns) (fresh_node c) ?ns1), s4)"
      and "content s4 = file_of (snd (write_nodes (length ns) (fresh_node c) ?ns1))"
      by (auto simp: fresh_node_def)
    then have w4: "write_node (length ns) [c] False [] [] s3 = (Inr (), s4)"
      and c4: "content s4 = file_of (?ns1 @ [fresh_node c])"
      by (simp_all add: write_nodes_fresh) (simp_all add: fresh_node_def)
    have "trie_inv (?ns1 @ [fresh_node c])"
      using trie_inv_created[OF inv created(1,2,3)] .
    then show ?thesis
      using created c4
      by (simp add: find_or_create_child_def rd read_nodes_def nx w3 w4 represents_def)
  qed
qed

lemma insert_loop_refines:
  "represents s ns \<Longrightarrow>
   fst (insert_loop bs n s) = fst (insert_loop_nodes bs n ns) \<and>
   represents (snd (insert_loop bs n s)) (snd (insert_loop_nodes bs n ns))"
proof (induction bs arbitrary: n s ns)
  case Nil
  then show ?case by simp
next
  case (Cons c cs)
  obtain r s1 where f: "find_or_create_child n c s = (r, s1)"
    by (cases "find_or_create_child n c s")
  obtain r' ns1 where f': "find_or_create_child_nodes n c ns = (r', ns1)"
    by (cases "find_or_create_child_nodes n c ns")
  from find_or_create_child_refines[OF Cons.prems, of n c] f f'
  have rr: "r = r'" and r1: "represents s1 ns1" by simp_all
  show ?case
  proof (cases r')
    case (Inl e)
    then show ?thesis using r1 by (simp add: f f' rr)
  next
    case (Inr x)
    from Cons.IH[OF r1, of x] show ?thesis by (simp add: f f' rr Inr)
  qed
qed

lemma insert_word_refines:
  assumes r: "represents s ns"
  shows "fst (insert_word word v s) = fst (insert_word_nodes word v ns) \<and>
         represents (snd (insert_word word v s)) (snd (insert_word_nodes word v ns))"
proof (cases "encode_utf8 word")
  case (Inl e)
  then show ?thesis using r by (simp add: insert_word_def insert_word_nodes_def)
next
  case (Inr bs)
  obtain q s1 where l: "insert_loop bs 0 s = (q, s1)" by (cases "insert_loop bs 0 s")
  obtain q' ns1 where l': "insert_loop_nodes bs 0 ns = (q', ns1)"
    by (cases "insert_loop_nodes bs 0 ns")
  from insert_loop_refines[OF r, of bs 0] l l'
  have qq: "q = q'" and r1: "represents s1 ns1" by simp_all
  from r1 have inv1: "trie_inv ns1" by (simp add: represents_def)
  show ?thesis
  proof (cases q')
    case (Inl e)
    then show ?thesis using r1 by (simp add: insert_word_def insert_word_nodes_def Inr l l' qq)
  next
    case x: (Inr x)
    from read_node_repr[OF r1, of x] obtain s2 where
      rd: "read_node x s1 = (Inr (read_nodes x ns1), s2)" and r2: "represents s2 ns1" by blast
    from r2 have c2: "content s2 = file_of ns1" by (simp add: represents_def)
    show ?thesis
    proof (cases "x < length ns1")
      case False
      then show ?thesis
        using r2 by (simp add: insert_word_def insert_word_nodes_def Inr l l' qq x rd read_nodes_def)
    next
      case True
      let ?nd = "(ns1 ! x)\<lparr>is_terminal := True, node_values := add_value (node_values (ns1 ! x)) v\<rparr>"
      from trie_inv_wf[OF inv1 True] have wf: "wf_node (ns1 ! x)" .
      from write_node_repr[OF c2, of x ?nd] True wf length_add_value[of "node_values (ns1 ! x)" v]
      obtain s3 where
        "write_node x (node_char ?nd) (is_terminal ?nd) (node_values ?nd) (children ?nd) s2 =
           (fst (write_nodes x ?nd ns1), s3)"
        and "content s3 = file_of (snd (write_nodes x ?nd ns1))"
        by (auto simp: wf_node_def)
      then have w3: "write_node x (node_char (ns1 ! x)) True (add_value (node_values (ns1 ! x)) v)
            (children (ns1 ! x)) s2 = (fst (write_nodes x ?nd ns1), s3)"
        and c3: "content s3 = file_of (snd (write_nodes x ?nd ns1))"
        by simp_all
      have "trie_inv (snd (write_nodes x ?nd ns1))"
        using trie_inv_write_values[OF inv1 True, of v] .
      then show ?thesis
        using True c3
        by (simp add: insert_word_def insert_word_nodes_def Inr l l' qq x rd read_nodes_def w3
            represents_def)
    qed
  qed
qed

lemma descend_refines:
  "represents s ns \<Longrightarrow>
   fst (descend bs n s) = descend_nodes bs n ns \<and> represents (snd (descend bs n s)) ns"
proof (induction bs arbitrary: n s)
  case Nil
  then show ?case by simp
next
  case (Cons c cs)
  from read_node_repr[OF Cons.prems, of n] obtain s1 where
    rd: "read_node n s = (Inr (read_nodes n ns), s1)" and r1: "represents s1 ns" by blast
  show ?case
  proof (cases "read_nodes n ns")
    case None
    then show ?thesis using r1 by (simp add: rd)
  next
    case (Some nd)
    show ?thesis
    proof (cases "find_child (children nd) c")
      case None
      then show ?thesis using r1 by (simp add: rd Some)
    next
      case x: (Some x)
      from Cons.IH[OF r1, of x] show ?thesis by (simp add: rd Some x)
    qed
  qed
qed

lemma lookup_refines:
  assumes r: "represents s ns"
  shows "fst (lookup word s) = lookup_nodes word ns \<and> represents (snd (lookup word s)) ns"
proof (cases "encode_utf8 word")
  case (Inl e)
  then show ?thesis using r by (simp add: lookup_def lookup_nodes_def)
next
  case (Inr bs)
  obtain q s1 where d: "descend bs 0 s = (q, s1)" by (cases "descend bs 0 s")
  from descend_refines[OF r, of bs 0] d
  have q: "q = descend_nodes bs 0 ns" and r1: "represents s1 ns" by simp_all
  show ?thesis
  proof (cases "descend_nodes bs 0 ns")
    case (Inl e)
    then show ?thesis using r1 by (simp add: lookup_def lookup_nodes_def Inr d q)
  next
    case x: (Inr x)
    show ?thesis
    proof (cases x)
      case None
      then show ?thesis using r1 by (simp add: lookup_def lookup_nodes_def Inr d q x)
    next
      case (Some node_id)
      from read_node_repr[OF r1, of node_id] obtain s2 where
        rd: "read_node node_id s1 = (Inr (read_nodes node_id ns), s2)"
        and r2: "represents s2 ns" by blast
      show ?thesis
        using r2
        by (cases "read_nodes node_id ns")
          (simp_all add: lookup_def lookup_nodes_def Inr d q x Some rd)
    qed
  qed
qed

lemma dfs_refines:
  "represents s ns \<Longrightarrow>
   fst (dfs depth current_id path results s) = dfs_nodes depth current_id path results ns \<and>
   represents (snd (dfs depth current_id path results s)) ns"
  "represents s ns \<Longrightarrow>
   fst (dfs_children depth cs path results s) = dfs_children_nodes depth cs path results ns \<and>
   represents (snd (dfs_children depth cs path results s)) ns"
proof (induction depth current_id path results s and depth cs path results s
    rule: dfs_dfs_children.induct)
  case (1 current_id path results s)
  then show ?case by simp
next
  case (2 depth current_id path results s)
  from read_node_repr[OF "2.prems", of current_id] obtain s1 where
    rd: "read_node current_id s = (Inr (read_nodes current_id ns), s1)"
    and r1: "represents s1 ns" by blast
  show ?case
  proof (cases "read_nodes current_id ns")
    case None
    then show ?thesis using r1 by (simp add: rd)
  next
    case (Some nd)
    from "2.IH"[OF rd[symmetric] refl Some r1] show ?thesis by (simp add: rd Some)
  qed
next
  case (3 depth path results s)
  then show ?case by simp
next
  case (4 depth c child_id rest path results s)
  obtain q s1 where d: "dfs depth child_id (path @ [unat c]) results s = (q, s1)"
    by (cases "dfs depth child_id (path @ [unat c]) results s")
  from "4.IH"(1)[OF "4.prems"] d
  have q: "q = dfs_nodes depth child_id (path @ [unat c]) results ns"
    and r1: "represents s1 ns" by simp_all
  show ?case
  proof (cases q)
    case (Inl e)
    then show ?thesis using r1 by (simp add: d q[symmetric])
  next
    case (Inr results1)
    from "4.IH"(2)[OF d[symmetric] Inr r1] show ?thesis by (simp add: d q[symmetric] Inr)
  qed
qed

lemma prefix_search_refines:
  assumes r: "represents s ns"
  shows "fst (prefix_search depth prefix s) = prefix_search_nodes depth prefix ns \<and>
         represents (snd (prefix_search depth prefix s)) ns"
proof (cases "encode_utf8 prefix")
  case (Inl e)
  then show ?thesis using r by (simp add: prefix_search_def prefix_search_nodes_def)
next
  case (Inr bs)
  obtain q s1 where d: "descend bs 0 s = (q, s1)" by (cases "descend bs 0 s")
  from descend_refines[OF r, of bs 0] d
  have q: "q = descend_nodes bs 0 ns" and r1: "represents s1 ns" by simp_all
  show ?thesis
  proof (cases "descend_nodes bs 0 ns")
    case (Inl e)
    then show ?thesis using r1 by (simp add: prefix_search_def prefix_search_nodes_def Inr d q)
  next
    case x: (Inr x)
    show ?thesis
      using r1 dfs_refines(1)[OF r1]
      by (cases x) (simp_all add: prefix_search_def prefix_search_nodes_def Inr d q x)
  qed
qed

lemma insert_all_refines:
  "represents s ns \<Longrightarrow>
   fst (insert_all kvs s) = fst (insert_all_nodes kvs ns) \<and>
   represents (snd (insert_all kvs s)) (snd (insert_all_nodes kvs ns))"
proof (induction kvs arbitrary: s ns)
  case Nil
  then show ?case by simp
next
  case (Cons kv kvs)
  obtain word v where kv: "kv = (word, v)" by (cases kv)
  obtain q s1 where i: "insert_word word v s = (q, s1)" by (cases "insert_word word v s")
  obtain q' ns1 where i': "insert_word_nodes word v ns = (q', ns1)"
    by (cases "insert_word_nodes word v ns")
  from insert_word_refines[OF Cons.prems, of word v] i i'
  have qq: "q = q'" and r1: "represents s1 ns1" by simp_all
  show ?case
  proof (cases q')
    case (Inl e)
    then show ?thesis using r1 by (simp add: kv i i' qq)
  next
    case (Inr u)
    from Cons.IH[OF r1] show ?thesis by (simp add: kv i i' qq Inr)
  qed
qed

lemma trie_inv_root: "trie_inv [root_node]"
  by (simp add: trie_inv_def node_inv_def wf_node_def root_node_def)

lemma init_trie_new: "represents (snd (init_trie [])) [root_node]"
proof -
  have "content (snd (write_node 0 [0] False [] [] \<lparr>content = [], position = 0\<rparr>)) =
      file_of (put_node 0 root_node [])"
    unfolding root_node_def
    by (rule write_node_file_of(2)) (simp_all add: wf_node_def)
  then show ?thesis
    by (simp add: represents_def init_trie_def trie_inv_root put_node_def)
qed

lemma init_trie_reopen:
  assumes "represents s ns"
  shows "represents (snd (init_trie (content s))) ns"
proof -
  from assms have "ns \<noteq> []" by (simp add: represents_def trie_inv_def)
  then show ?thesis
    using assms by (simp add: init_trie_def represents_def Let_def NODE_SIZE_def)
qed

lemma reachable_represents: "reachable s \<Longrightarrow> \<exists>ns. represents s ns"
proof (induction rule: reachable.induct)
  case reachable_init
  then show ?case using init_trie_new by blast
next
  case (reachable_insert s word v)
  then show ?case using insert_word_refines by blast
next
  case (reachable_lookup s word)
  then show ?case using lookup_refines by blast
next
  case (reachable_search s depth prefix)
  then show ?case using prefix_search_refines by blast
next
  case (reachable_reopen s)
  then show ?case using init_trie_reopen by blast
next
  case (reachable_child s parent_id target_char)
  then show ?case using find_or_create_child_refines by blast
next
  case (reachable_loop s bs node_id)
  then show ?case using insert_loop_refines by blast
qed

section \<open>Inserting and looking up, on the list of nodes\<close>

lemma find_child_append:
  "find_child (cs @ ds) c = (case find_child cs c of Some x \<Rightarrow> Some x | None \<Rightarrow> find_child ds c)"
  by (induction cs) auto

lemma extends_refl: "extends ns ns"
  by (simp add: extends_def)

lemma extends_trans: "extends ns ns1 \<Longrightarrow> extends ns1 ns2 \<Longrightarrow> extends ns ns2"
  unfolding extends_def by (metis (no_types, lifting) le_trans less_le_trans)

lemma extends_created:
  assumes "p < length ns"
  shows "extends ns (ns[p := add_child (ns ! p) c n] @ [fresh_node c])"
  using assms
  by (auto simp: extends_def nth_append nth_list_update add_child_def find_child_append)

lemma extends_find_or_create_child_nodes:
  "extends ns (snd (find_or_create_child_nodes p c ns))"
  by (cases p c ns rule: find_or_create_child_nodes_cases)
    (simp_all add: extends_refl extends_created)

lemma extends_insert_loop_nodes: "extends ns (snd (insert_loop_nodes bs n ns))"
proof (induction bs arbitrary: n ns)
  case Nil
  then show ?case by (simp add: extends_refl)
next
  case (Cons c cs)
  obtain r ns1 where f: "find_or_create_child_nodes n c ns = (r, ns1)"
    by (cases "find_or_create_child_nodes n c ns")
  with extends_find_or_create_child_nodes[of ns n c] have e1: "extends ns ns1" by simp
  show ?case
  proof (cases r)
    case (Inl e)
    then show ?thesis using e1 by (simp add: f)
  next
    case (Inr y)
    from extends_trans[OF e1 Cons.IH[of ns1 y]] show ?thesis by (simp add: f Inr)
  qed
qed

lemma descend_nodes_extends:
  "extends ns ns' \<Longrightarrow> descend_nodes bs n ns = Inr (Some x) \<Longrightarrow>
   descend_nodes bs n ns' = Inr (Some x)"
proof (induction bs arbitrary: n)
  case Nil
  then show ?case by simp
next
  case (Cons c cs)
  from Cons.prems(2) have n: "n < length ns"
    by (auto simp: read_nodes_def split: if_splits)
  with Cons.prems(2) obtain y where y: "find_child (children (ns ! n)) c = Some y"
    and d: "descend_nodes cs y ns = Inr (Some x)"
    by (auto simp: read_nodes_def split: option.splits)
  from Cons.prems(1) n y have "n < length ns'" "find_child (children (ns' ! n)) c = Some y"
    by (auto simp: extends_def)
  then show ?case using Cons.IH[OF Cons.prems(1) d] by (simp add: read_nodes_def)
qed

lemma find_or_create_child_nodes_edge:
  assumes "find_or_create_child_nodes p c ns = (Inr y, ns1)"
  shows "p < length ns1 \<and> find_child (children (ns1 ! p)) c = Some y"
  using assms
  by (cases p c ns rule: find_or_create_child_nodes_cases)
    (auto simp: nth_append add_child_def find_child_append)

lemma descend_after_insert_loop:
  "insert_loop_nodes bs n ns = (Inr x, ns') \<Longrightarrow> descend_nodes bs n ns' = Inr (Some x)"
proof (induction bs arbitrary: n ns)
  case Nil
  then show ?case by simp
next
  case (Cons c cs)
  obtain r ns1 where f: "find_or_create_child_nodes n c ns = (r, ns1)"
    by (cases "find_or_create_child_nodes n c ns")
  with Cons.prems obtain y where r: "r = Inr y" and l: "insert_loop_nodes cs y ns1 = (Inr x, ns')"
    by (cases r) auto
  from find_or_create_child_nodes_edge[OF f[unfolded r]]
  have n: "n < length ns1" and e: "find_child (children (ns1 ! n)) c = Some y" by simp_all
  from extends_insert_loop_nodes[of ns1 cs y] l have "extends ns1 ns'" by simp
  with n e have "n < length ns'" "find_child (children (ns' ! n)) c = Some y"
    by (auto simp: extends_def)
  then show ?case using Cons.IH[OF l] by (simp add: read_nodes_def)
qed

text \<open>An existing path is followed without a write.\<close>

lemma insert_loop_nodes_existing:
  "descend_nodes bs n ns = Inr (Some x) \<Longrightarrow> insert_loop_nodes bs n ns = (Inr x, ns)"
proof (induction bs arbitrary: n)
  case Nil
  then show ?case by simp
next
  case (Cons c cs)
  from Cons.prems have n: "n < length ns"
    by (auto simp: read_nodes_def split: if_splits)
  with Cons.prems obtain y where y: "find_child (children (ns ! n)) c = Some y"
    and d: "descend_nodes cs y ns = Inr (Some x)"
    by (auto simp: read_nodes_def split: option.splits)
  have "find_or_create_child_nodes n c ns = (Inr y, ns)"
    using n y by (simp add: find_or_create_child_nodes_def read_nodes_def)
  then show ?case using Cons.IH[OF d] by simp
qed

text \<open>From a node without edges, every step allocates, and the last node allocated is new.\<close>

lemma insert_loop_nodes_fresh:
  "insert_loop_nodes bs n ns = (Inr x, ns') \<Longrightarrow> n < length ns \<Longrightarrow> is_fresh (ns ! n) \<Longrightarrow>
   x < length ns' \<and> is_fresh (ns' ! x)"
proof (induction bs arbitrary: n ns)
  case Nil
  then show ?case by simp
next
  case (Cons c cs)
  from Cons.prems(2,3) have nf: "find_child (children (ns ! n)) c = None"
    by (simp add: is_fresh_def)
  obtain r ns1 where f: "find_or_create_child_nodes n c ns = (r, ns1)"
    by (cases "find_or_create_child_nodes n c ns")
  with Cons.prems(1) obtain y where r: "r = Inr y"
    and l: "insert_loop_nodes cs y ns1 = (Inr x, ns')"
    by (cases r) auto
  have "y = length ns \<and> ns1 = ns[n := add_child (ns ! n) c (length ns)] @ [fresh_node c]"
    using f r nf by (cases n c ns rule: find_or_create_child_nodes_cases) auto
  then have "y < length ns1" "is_fresh (ns1 ! y)"
    by (simp_all add: nth_append is_fresh_def fresh_node_def)
  from Cons.IH[OF l this] show ?case .
qed

lemma insert_loop_nodes_same_or_fresh:
  "insert_loop_nodes bs n ns = (Inr x, ns') \<Longrightarrow> n < length ns \<Longrightarrow> trie_inv ns \<Longrightarrow>
   (descend_nodes bs n ns = Inr (Some x) \<and> ns' = ns) \<or>
   (descend_nodes bs n ns = Inr None \<and> x < length ns' \<and> is_fresh (ns' ! x))"
proof (induction bs arbitrary: n)
  case Nil
  then show ?case by simp
next
  case (Cons c cs)
  obtain r ns1 where f: "find_or_create_child_nodes n c ns = (r, ns1)"
    by (cases "find_or_create_child_nodes n c ns")
  with Cons.prems(1) obtain y where r: "r = Inr y"
    and l: "insert_loop_nodes cs y ns1 = (Inr x, ns')"
    by (cases r) auto
  show ?case
  proof (cases "find_child (children (ns ! n)) c")
    case (Some z)
    then have "find_or_create_child_nodes n c ns = (Inr z, ns)"
      using Cons.prems(2) by (simp add: find_or_create_child_nodes_def read_nodes_def)
    with f r have zy: "z = y" and ns1: "ns1 = ns" by simp_all
    from trie_inv_nth[OF Cons.prems(3,2)] Some have "z < length ns"
      by (auto simp: node_inv_def list_all_iff find_child_map_of dest!: map_of_SomeD)
    from Cons.IH[OF l[unfolded ns1] this[unfolded zy] Cons.prems(3)]
    show ?thesis using Cons.prems(2) Some zy by (simp add: read_nodes_def)
  next
    case None
    have "y = length ns \<and> ns1 = ns[n := add_child (ns ! n) c (length ns)] @ [fresh_node c]"
      using f r None by (cases n c ns rule: find_or_create_child_nodes_cases) auto
    then have "y < length ns1" "is_fresh (ns1 ! y)"
      by (simp_all add: nth_append is_fresh_def fresh_node_def)
    from insert_loop_nodes_fresh[OF l this]
    show ?thesis using Cons.prems(2) None by (simp add: read_nodes_def)
  qed
qed

lemma extends_update_values:
  "x < length ns \<Longrightarrow> children nd = children (ns ! x) \<Longrightarrow> extends ns (ns[x := nd])"
  by (auto simp: extends_def nth_list_update)

lemma descend_nodes_bound:
  "trie_inv ns \<Longrightarrow> n < length ns \<Longrightarrow> descend_nodes bs n ns = Inr (Some x) \<Longrightarrow> x < length ns"
proof (induction bs arbitrary: n)
  case Nil
  then show ?case by simp
next
  case (Cons c cs)
  from Cons.prems obtain y where y: "find_child (children (ns ! n)) c = Some y"
    and d: "descend_nodes cs y ns = Inr (Some x)"
    by (auto simp: read_nodes_def split: option.splits)
  from trie_inv_nth[OF Cons.prems(1,2)] y have "y < length ns"
    by (auto simp: node_inv_def list_all_iff find_child_map_of dest!: map_of_SomeD)
  from Cons.IH[OF Cons.prems(1) this d] show ?case .
qed

text \<open>
  What a successful insert leaves: the key's path ends at a terminal node whose values
  are the ones \<^verbatim>\<open>lookup\<close> returned before, with the new value added by \<open>add_value\<close>.
\<close>

lemma insert_word_nodes_result:
  assumes inv: "trie_inv ns" and ins: "insert_word_nodes word v ns = (Inr (), ns')"
  shows "\<exists>bs x old. encode_utf8 word = Inr bs \<and> lookup_nodes word ns = Inr old \<and>
           descend_nodes bs 0 ns' = Inr (Some x) \<and> x < length ns' \<and>
           is_terminal (ns' ! x) \<and> node_values (ns' ! x) = add_value old v \<and>
           (descend_nodes bs 0 ns = Inr (Some x) \<longrightarrow> length ns' = length ns)"
proof -
  from ins obtain bs where bs: "encode_utf8 word = Inr bs"
    by (cases "encode_utf8 word") (auto simp: insert_word_nodes_def)
  obtain r ns1 where l: "insert_loop_nodes bs 0 ns = (r, ns1)"
    by (cases "insert_loop_nodes bs 0 ns")
  with ins bs obtain x where r: "r = Inr x"
    by (cases r) (auto simp: insert_word_nodes_def)
  note l = l[unfolded r]
  from ins bs l have x: "x < length ns1"
    by (auto simp: insert_word_nodes_def read_nodes_def split: if_splits)
  let ?nd = "(ns1 ! x)\<lparr>is_terminal := True, node_values := add_value (node_values (ns1 ! x)) v\<rparr>"
  from ins bs l x have w: "write_nodes x ?nd ns1 = (Inr (), ns')"
    by (simp add: insert_word_nodes_def read_nodes_def)
  then have ns': "ns' = ns1[x := ?nd]"
    using x by (auto simp: write_nodes_def put_node_def split: option.splits)
  have d1: "descend_nodes bs 0 ns1 = Inr (Some x)" using descend_after_insert_loop[OF l] .
  have "extends ns1 ns'" unfolding ns' using x by (intro extends_update_values) simp_all
  from descend_nodes_extends[OF this d1] have d': "descend_nodes bs 0 ns' = Inr (Some x)" .
  from inv have n0: "0 < length ns" by (simp add: trie_inv_def)
  have old: "lookup_nodes word ns = Inr (node_values (ns1 ! x))"
    and len: "descend_nodes bs 0 ns = Inr (Some x) \<longrightarrow> length ns1 = length ns"
  proof -
    from insert_loop_nodes_same_or_fresh[OF l n0 inv]
    consider (same) "descend_nodes bs 0 ns = Inr (Some x)" "ns1 = ns"
      | (new) "descend_nodes bs 0 ns = Inr None" "is_fresh (ns1 ! x)" by blast
    then have "lookup_nodes word ns = Inr (node_values (ns1 ! x)) \<and>
        (descend_nodes bs 0 ns = Inr (Some x) \<longrightarrow> length ns1 = length ns)"
    proof cases
      case same
      from trie_inv_nth[OF inv x[unfolded same(2)]]
      have "\<not> is_terminal (ns ! x) \<longrightarrow> node_values (ns ! x) = []" by (simp add: node_inv_def)
      then show ?thesis
        using same x by (auto simp: lookup_nodes_def bs read_nodes_def)
    next
      case new
      then show ?thesis by (simp add: lookup_nodes_def bs is_fresh_def)
    qed
    then show "lookup_nodes word ns = Inr (node_values (ns1 ! x))"
      and "descend_nodes bs 0 ns = Inr (Some x) \<longrightarrow> length ns1 = length ns" by simp_all
  qed
  show ?thesis
    using bs old d' x len by (auto simp: ns')
qed

lemma lookup_nodes_after_insert:
  assumes "trie_inv ns" and "insert_word_nodes word v ns = (Inr (), ns')"
  shows "\<exists>old. lookup_nodes word ns = Inr old \<and> lookup_nodes word ns' = Inr (add_value old v)"
proof -
  from insert_word_nodes_result[OF assms] obtain bs x old where
    "encode_utf8 word = Inr bs" "lookup_nodes word ns = Inr old"
    "descend_nodes bs 0 ns' = Inr (Some x)" "x < length ns'"
    "is_terminal (ns' ! x)" "node_values (ns' ! x) = add_value old v" by blast
  then show ?thesis by (simp add: lookup_nodes_def read_nodes_def)
qed

text \<open>An insert under a key that has a path raises only for a value it would append.\<close>

lemma insert_word_nodes_existing:
  assumes inv: "trie_inv ns" and bs: "encode_utf8 word = Inr bs"
    and d: "descend_nodes bs 0 ns = Inr (Some x)"
    and v: "v \<in> set (node_values (ns ! x)) \<or> MAX_VALUES \<le> length (node_values (ns ! x)) \<or>
            (0 \<le> v \<and> v \<le> 4294967295)"
  shows "fst (insert_word_nodes word v ns) = Inr ()"
    and "length (snd (insert_word_nodes word v ns)) = length ns"
proof -
  from inv have n0: "0 < length ns" by (simp add: trie_inv_def)
  from descend_nodes_bound[OF inv n0 d] have x: "x < length ns" .
  from trie_inv_wf[OF inv x] have wf: "wf_node (ns ! x)" .
  have l: "insert_loop_nodes bs 0 ns = (Inr x, ns)" using insert_loop_nodes_existing[OF d] .
  have "list_all (\<lambda>v. 0 \<le> v \<and> v \<le> 4294967295) (add_value (node_values (ns ! x)) v)"
    using wf v by (auto simp: wf_node_def add_value_def list_all_iff)
  moreover have "length (add_value (node_values (ns ! x)) v) \<le> 255"
    using length_add_value[of "node_values (ns ! x)" v] wf
    by (simp add: wf_node_def MAX_VALUES_def)
  ultimately have e: "encode_error (add_value (node_values (ns ! x)) v) (children (ns ! x)) = None"
    using wf by (auto simp: encode_error_def wf_node_def list_all_iff list_ex_iff)
  show "fst (insert_word_nodes word v ns) = Inr ()"
    using x e by (simp add: insert_word_nodes_def bs l read_nodes_def write_nodes_def)
  show "length (snd (insert_word_nodes word v ns)) = length ns"
    using x e by (simp add: insert_word_nodes_def bs l read_nodes_def write_nodes_def put_node_def)
qed

lemma lookup_nodes_after_insert_all:
  "trie_inv ns \<Longrightarrow> insert_all_nodes (map (Pair word) vs) ns = (Inr (), ns') \<Longrightarrow>
   lookup_nodes word ns = Inr old \<Longrightarrow> lookup_nodes word ns' = Inr (foldl add_value old vs)"
proof (induction vs arbitrary: ns old)
  case Nil
  then show ?case by simp
next
  case (Cons v vs)
  obtain r ns1 where i: "insert_word_nodes word v ns = (r, ns1)"
    by (cases "insert_word_nodes word v ns")
  with Cons.prems(2) have r: "r = Inr ()"
    and rest: "insert_all_nodes (map (Pair word) vs) ns1 = (Inr (), ns')"
    by (cases r; simp)+
  from trie_inv_insert_word_nodes[OF Cons.prems(1), of word v] i have inv1: "trie_inv ns1" by simp
  from lookup_nodes_after_insert[OF Cons.prems(1) i[unfolded r]] Cons.prems(3)
  have "lookup_nodes word ns1 = Inr (add_value old v)" by simp
  from Cons.IH[OF inv1 rest this] show ?case by simp
qed

lemma foldl_add_value_new:
  "distinct vs \<Longrightarrow> set vs \<inter> set old = {} \<Longrightarrow>
   foldl add_value old vs = old @ take (MAX_VALUES - length old) vs"
proof (induction vs arbitrary: old)
  case Nil
  then show ?case by simp
next
  case (Cons v vs)
  show ?case
  proof (cases "length old < MAX_VALUES")
    case True
    then have a: "add_value old v = old @ [v]" using Cons.prems by (simp add: add_value_def)
    from Cons.prems have "distinct vs" "set vs \<inter> set (old @ [v]) = {}" by auto
    from Cons.IH[OF this] True show ?thesis
      by (simp add: a Suc_diff_Suc take_Suc_Cons[symmetric] del: take_Suc_Cons)
  next
    case False
    then have a: "add_value old v = old" by (simp add: add_value_def)
    from Cons.prems have "distinct vs" "set vs \<inter> set old = {}" by auto
    from Cons.IH[OF this] False show ?thesis by (simp add: a)
  qed
qed

section \<open>The claims\<close>

text \<open>Rules that evaluate the operations on a given list of nodes.\<close>

lemmas nodes_eval =
  find_or_create_child_nodes_def read_nodes_def write_nodes_def encode_error_def put_node_def
  insert_word_nodes_def lookup_nodes_def prefix_search_nodes_def root_node_def add_value_def
  MAX_VALUES_def utf8_char_def

lemma reachable_insert_all: "reachable s \<Longrightarrow> reachable (snd (insert_all kvs s))"
proof (induction kvs arbitrary: s)
  case Nil
  then show ?case by simp
next
  case (Cons kv kvs)
  obtain word v where kv: "kv = (word, v)" by (cases kv)
  obtain r s1 where i: "insert_word word v s = (r, s1)" by (cases "insert_word word v s")
  from reachable_insert[OF Cons.prems, of word v] i have r1: "reachable s1" by simp
  show ?case using r1 Cons.IH[OF r1] by (cases r) (simp_all add: kv i)
qed

lemma insert_word_ok_nodes:
  assumes "represents s ns" and "insert_word word v s = (Inr (), s1)"
  obtains ns1 where "insert_word_nodes word v ns = (Inr (), ns1)" and "represents s1 ns1"
proof -
  from insert_word_refines[OF assms(1), of word v] assms(2)
  have "fst (insert_word_nodes word v ns) = Inr ()"
    and "represents s1 (snd (insert_word_nodes word v ns))" by simp_all
  then show ?thesis
    using that[of "snd (insert_word_nodes word v ns)"]
    by (cases "insert_word_nodes word v ns") simp
qed

lemma lookup_nodes_values:
  assumes "trie_inv ns" and "lookup_nodes word ns = Inr old"
  shows "distinct old \<and> length old \<le> MAX_VALUES"
proof -
  have "distinct (node_values (ns ! x)) \<and> length (node_values (ns ! x)) \<le> MAX_VALUES"
    if "x < length ns" for x
    using trie_inv_nth[OF assms(1) that] by (simp add: node_inv_def wf_node_def)
  then show ?thesis
    using assms(2)
    by (auto simp: lookup_nodes_def read_nodes_def split: sum.splits option.splits if_splits)
qed

lemma add_value_twice:
  assumes "v1 \<noteq> v2" and "length (old @ filter (\<lambda>v. v \<notin> set old) [v1, v2]) \<le> MAX_VALUES"
  shows "add_value (add_value old v1) v2 = old @ filter (\<lambda>v. v \<notin> set old) [v1, v2]"
  using assms by (auto simp: add_value_def split: if_splits)

lemma add_value_idem: "add_value (add_value vs v) v = add_value vs v"
  by (simp add: add_value_def)

lemma add_value_in_or_full:
  "v \<in> set (add_value vs v) \<or> MAX_VALUES \<le> length (add_value vs v)"
  by (auto simp: add_value_def)

lemma insert_word_nodes_existing_result:
  assumes inv: "trie_inv ns" and bs: "encode_utf8 word = Inr bs"
    and d: "descend_nodes bs 0 ns = Inr (Some x)"
    and ok: "fst (insert_word_nodes word v ns) = Inr ()"
  shows "snd (insert_word_nodes word v ns) =
           ns[x := (ns ! x)\<lparr>is_terminal := True,
                              node_values := add_value (node_values (ns ! x)) v\<rparr>]"
proof -
  from inv have n0: "0 < length ns" by (simp add: trie_inv_def)
  from descend_nodes_bound[OF inv n0 d] have x: "x < length ns" .
  have l: "insert_loop_nodes bs 0 ns = (Inr x, ns)" using insert_loop_nodes_existing[OF d] .
  show ?thesis
    using ok x
    by (auto simp: insert_word_nodes_def bs l read_nodes_def write_nodes_def put_node_def
        split: option.splits)
qed

lemma lookup_nodes_nonempty:
  assumes "lookup_nodes word ns = Inr old" and "old \<noteq> []"
  shows "\<exists>bs x. encode_utf8 word = Inr bs \<and> descend_nodes bs 0 ns = Inr (Some x) \<and>
           x < length ns \<and> is_terminal (ns ! x) \<and> node_values (ns ! x) = old"
  using assms
  by (auto simp: lookup_nodes_def read_nodes_def split: sum.splits option.splits if_splits)

lemma insert_all_ok_nodes:
  assumes "represents s ns" and "insert_all kvs s = (Inr (), s1)"
  obtains ns1 where "insert_all_nodes kvs ns = (Inr (), ns1)" and "represents s1 ns1"
proof -
  from insert_all_refines[OF assms(1), of kvs] assms(2)
  have "fst (insert_all_nodes kvs ns) = Inr ()"
    and "represents s1 (snd (insert_all_nodes kvs ns))" by simp_all
  then show ?thesis
    using that[of "snd (insert_all_nodes kvs ns)"]
    by (cases "insert_all_nodes kvs ns") simp
qed

lemma add_value_full: "MAX_VALUES \<le> length vs \<Longrightarrow> add_value vs v = vs"
  by (simp add: add_value_def)

lemma fst_read_node_repr: "represents s ns \<Longrightarrow> fst (read_node m s) = Inr (read_nodes m ns)"
  by (rule read_node_repr[of s ns m]) simp_all

lemma length_content_repr: "represents s ns \<Longrightarrow> length (content s) = length ns * NODE_SIZE"
  by (simp add: represents_def)

lemma node_count_repr: "represents s ns \<Longrightarrow> length (content s) div NODE_SIZE = length ns"
  by (simp add: represents_def NODE_SIZE_def)

lemma find_or_create_child_nodes_new:
  assumes inv: "trie_inv ns" and p: "p < length ns"
    and nf: "find_child (children (ns ! p)) c = None"
    and room: "length (children (ns ! p)) < 255" and n: "length ns \<le> 65535"
  shows "find_or_create_child_nodes p c ns =
           (Inr (length ns), ns[p := add_child (ns ! p) c (length ns)] @ [fresh_node c])"
proof -
  from trie_inv_wf[OF inv p] have wf: "wf_node (ns ! p)" .
  have "encode_error (node_values (ns ! p)) (children (ns ! p) @ [(c, length ns)]) = None"
    using wf room n
    by (auto simp: encode_error_def wf_node_def MAX_VALUES_def list_ex_iff list_all_iff)
  then show ?thesis
    using nf p by (cases p c ns rule: find_or_create_child_nodes_cases) simp_all
qed

lemma decode_record_char:
  "decode_record data = Inr (Some nd) \<Longrightarrow> length (node_char nd) = 1"
  by (auto simp: decode_record_def py_slice_def Let_def neq_Nil_conv
      split: if_splits sum.splits)

lemma encode_error_big_id: "65535 < n \<Longrightarrow> encode_error vs (cs @ [(c, n)]) \<noteq> None"
  by (simp add: encode_error_def)

lemma read_node_cong:
  "content s = content s' \<Longrightarrow> fst (read_node n s) = fst (read_node n s')"
  by (simp add: read_node_unfold)

lemma find_or_create_child_overflow:
  assumes rd: "fst (read_node p s) = Inr (Some nd)"
    and nf: "find_child (children nd) c = None"
    and n: "65536 \<le> length (content s) div NODE_SIZE"
  shows "isl (fst (find_or_create_child p c s)) \<and>
         content (snd (find_or_create_child p c s)) = content s"
proof -
  obtain s1 where r1: "read_node p s = (Inr (Some nd), s1)"
    using rd by (cases "read_node p s") simp
  then have c1: "content s1 = content s" using content_read_node[of p s] by simp
  obtain m s2 where nx: "get_next_node_id s1 = (m, s2)" by (cases "get_next_node_id s1")
  then have m: "m = length (content s) div NODE_SIZE" and c2: "content s2 = content s"
    using c1 content_get_next_node_id[of s1]
    by (auto simp: get_next_node_id_def file_seek_def Let_def)
  from rd have ch: "length (node_char nd) = 1"
    by (simp add: read_node_unfold decode_record_char)
  from n m have "65535 < m" by simp
  from encode_error_big_id[OF this] obtain e where
    "encode_error (node_values nd) (children nd @ [(c, m)]) = Some e" by blast
  from write_node_fail[OF ch this]
  have "write_node p (node_char nd) (is_terminal nd) (node_values nd)
      (children nd @ [(c, m)]) s2 = (Inl e, s2)" .
  then show ?thesis by (simp add: find_or_create_child_def r1 nf nx c2)
qed

lemma insert_loop_overflow:
  "fst (descend bs n s) = Inr None \<Longrightarrow> 65536 \<le> length (content s) div NODE_SIZE \<Longrightarrow>
   isl (fst (insert_loop bs n s)) \<and> content (snd (insert_loop bs n s)) = content s"
proof (induction bs arbitrary: n s)
  case Nil
  then show ?case by simp
next
  case (Cons c cs)
  obtain r s1 where r1: "read_node n s = (r, s1)" by (cases "read_node n s")
  then have c1: "content s1 = content s" using content_read_node[of n s] by simp
  from Cons.prems(1) r1 obtain nd where r: "r = Inr (Some nd)"
    by (auto split: sum.splits option.splits)
  have rd: "fst (read_node n s) = Inr (Some nd)" by (simp add: r1 r)
  show ?case
  proof (cases "find_child (children nd) c")
    case None
    from find_or_create_child_overflow[OF rd None Cons.prems(2)]
    show ?thesis by (cases "find_or_create_child n c s"; cases "fst (find_or_create_child n c s)") auto
  next
    case (Some y)
    then have f: "find_or_create_child n c s = (Inr y, s1)"
      by (simp add: find_or_create_child_def r1 r)
    from Cons.prems(1) have "fst (descend cs y s1) = Inr None" by (simp add: r1 r Some)
    from Cons.IH[OF this] Cons.prems(2) c1 show ?thesis by (simp add: f)
  qed
qed

lemma insert_word_overflow:
  assumes "encode_utf8 k = Inr bs" and "fst (descend bs 0 s) = Inr None"
    and "65536 \<le> length (content s) div NODE_SIZE"
  shows "isl (fst (insert_word k v s)) \<and> content (snd (insert_word k v s)) = content s"
  using insert_loop_overflow[OF assms(2,3)]
  by (cases "insert_loop bs 0 s"; cases "fst (insert_loop bs 0 s)")
    (auto simp: insert_word_def assms(1))

lemma find_or_create_child_nodes_id:
  assumes inv: "trie_inv ns" and f: "find_or_create_child_nodes p c ns = (Inr x, ns1)"
  shows "x < length ns1 \<and> (find_child (children (ns ! p)) c = None \<longrightarrow> x = length ns)"
proof (cases p c ns rule: find_or_create_child_nodes_cases)
  case absent
  then show ?thesis using f by simp
next
  case (found y)
  from trie_inv_nth[OF inv found(1)] found(2) have "y < length ns"
    by (auto simp: node_inv_def list_all_iff find_child_map_of dest!: map_of_SomeD)
  then show ?thesis using f found by simp
next
  case (failed e)
  then show ?thesis using f by simp
next
  case created
  then show ?thesis using f by auto
qed

lemma edge_cong: "content s = content s' \<Longrightarrow> edge s n c m = edge s' n c m"
  by (simp add: edge_def read_node_cong[of s s'])

lemma no_edge_cong: "content s = content s' \<Longrightarrow> no_edge s n c = no_edge s' n c"
  by (simp add: no_edge_def read_node_cong[of s s'])

lemma edge_path_cong: "content s = content s' \<Longrightarrow> edge_path s n bs x = edge_path s' n bs x"
  by (induction bs arbitrary: n) (simp_all add: edge_cong[of s s'])

lemma descend_edge_path:
  "edge_path s n bs x \<Longrightarrow> fst (descend bs n s) = Inr (Some x)"
proof (induction bs arbitrary: n s)
  case Nil
  then show ?case by simp
next
  case (Cons c cs)
  from Cons.prems obtain m nd where rd: "fst (read_node n s) = Inr (Some nd)"
    and e: "find_child (children nd) c = Some m" and p: "edge_path s m cs x"
    by (auto simp: edge_def find_child_map_of)
  obtain s1 where r1: "read_node n s = (Inr (Some nd), s1)"
    using rd by (cases "read_node n s") simp
  then have "content s = content s1" using content_read_node[of n s] by simp
  from Cons.IH[of s1 m] p edge_path_cong[OF this] show ?case by (simp add: r1 e)
qed

lemma descend_no_edge:
  "edge_path s n pre x \<Longrightarrow> no_edge s x c \<Longrightarrow> fst (descend (pre @ c # rest) n s) = Inr None"
proof (induction pre arbitrary: n s)
  case Nil
  then obtain nd where rd: "fst (read_node n s) = Inr (Some nd)"
    and e: "find_child (children nd) c = None"
    by (auto simp: no_edge_def find_child_map_of)
  obtain s1 where r1: "read_node n s = (Inr (Some nd), s1)"
    using rd by (cases "read_node n s") simp
  show ?case by (simp add: r1 e)
next
  case (Cons b pre)
  from Cons.prems(1) obtain m nd where rd: "fst (read_node n s) = Inr (Some nd)"
    and e: "find_child (children nd) b = Some m" and p: "edge_path s m pre x"
    by (auto simp: edge_def find_child_map_of)
  obtain s1 where r1: "read_node n s = (Inr (Some nd), s1)"
    using rd by (cases "read_node n s") simp
  then have c1: "content s = content s1" using content_read_node[of n s] by simp
  from Cons.IH[of s1 m] p Cons.prems(2) edge_path_cong[OF c1] no_edge_cong[OF c1]
  show ?case by (simp add: r1 e)
qed

lemma descend_nodes_total:
  "trie_inv ns \<Longrightarrow> n < length ns \<Longrightarrow> \<exists>r. descend_nodes bs n ns = Inr r"
proof (induction bs arbitrary: n)
  case Nil
  then show ?case by simp
next
  case (Cons c cs)
  show ?case
  proof (cases "find_child (children (ns ! n)) c")
    case None
    then show ?thesis using Cons.prems(2) by (simp add: read_nodes_def)
  next
    case (Some y)
    from trie_inv_nth[OF Cons.prems] Some have "y < length ns"
      by (auto simp: node_inv_def list_all_iff find_child_map_of dest!: map_of_SomeD)
    from Cons.IH[OF Cons.prems(1) this] show ?thesis
      using Cons.prems(2) Some by (simp add: read_nodes_def)
  qed
qed

lemma lookup_nodes_total:
  assumes inv: "trie_inv ns" and bs: "encode_utf8 k = Inr bs"
  shows "\<exists>vs. lookup_nodes k ns = Inr vs"
proof -
  from inv have n0: "0 < length ns" by (simp add: trie_inv_def)
  from descend_nodes_total[OF inv n0, of bs] obtain r where d: "descend_nodes bs 0 ns = Inr r"
    by blast
  show ?thesis
  proof (cases r)
    case None
    then show ?thesis by (simp add: lookup_nodes_def bs d)
  next
    case (Some x)
    from descend_nodes_bound[OF inv n0 d[unfolded Some]] show ?thesis
      by (simp add: lookup_nodes_def bs d Some read_nodes_def)
  qed
qed

lemma find_or_create_child_nodes_fail_same:
  "find_or_create_child_nodes p c ns = (Inl e, ns1) \<Longrightarrow> ns1 = ns"
  by (cases p c ns rule: find_or_create_child_nodes_cases) simp_all

lemma find_or_create_child_nodes_found:
  "p < length ns \<Longrightarrow> find_child (children (ns ! p)) c = Some y \<Longrightarrow>
   find_or_create_child_nodes p c ns = (Inr y, ns)"
  by (simp add: find_or_create_child_nodes_def read_nodes_def)

text \<open>Run again on the list it has left, the loop of an insert leaves the list alone.\<close>

lemma insert_loop_nodes_idem:
  "insert_loop_nodes bs n ns = (r, ns1) \<Longrightarrow> insert_loop_nodes bs n ns1 = (r, ns1)"
proof (induction bs arbitrary: n ns)
  case Nil
  then show ?case by simp
next
  case (Cons c cs)
  obtain q nsA where f: "find_or_create_child_nodes n c ns = (q, nsA)"
    by (cases "find_or_create_child_nodes n c ns")
  show ?case
  proof (cases q)
    case (Inl e)
    with Cons.prems f have "r = Inl e" "ns1 = nsA" by simp_all
    moreover from find_or_create_child_nodes_fail_same[OF f[unfolded Inl]] have "nsA = ns" .
    ultimately show ?thesis using Cons.prems by simp
  next
    case (Inr y)
    with Cons.prems f have l: "insert_loop_nodes cs y nsA = (r, ns1)" by simp
    from find_or_create_child_nodes_edge[OF f[unfolded Inr]]
    have n: "n < length nsA" and e: "find_child (children (nsA ! n)) c = Some y" by simp_all
    from extends_insert_loop_nodes[of nsA cs y] l have "extends nsA ns1" by simp
    with n e have "n < length ns1" "find_child (children (ns1 ! n)) c = Some y"
      by (auto simp: extends_def)
    from find_or_create_child_nodes_found[OF this] Cons.IH[OF l] show ?thesis by simp
  qed
qed

lemma insert_word_nodes_idem:
  assumes "insert_word_nodes k v ns = (r, ns1)"
  shows "insert_word_nodes k v ns1 = (r, ns1)"
proof (cases "encode_utf8 k")
  case (Inl e)
  then show ?thesis using assms by (simp add: insert_word_nodes_def)
next
  case (Inr bs)
  obtain q nsL where l: "insert_loop_nodes bs 0 ns = (q, nsL)"
    by (cases "insert_loop_nodes bs 0 ns")
  from insert_loop_nodes_idem[OF l] have l': "insert_loop_nodes bs 0 nsL = (q, nsL)" .
  show ?thesis
  proof (cases q)
    case (Inl e)
    then show ?thesis using assms l l' by (simp add: insert_word_nodes_def Inr)
  next
    case x: (Inr x)
    show ?thesis
    proof (cases "x < length nsL")
      case False
      then show ?thesis
        using assms l l' by (simp add: insert_word_nodes_def Inr x read_nodes_def)
    next
      case True
      let ?vs = "add_value (node_values (nsL ! x)) v"
      let ?nd = "(nsL ! x)\<lparr>is_terminal := True, node_values := ?vs\<rparr>"
      show ?thesis
      proof (cases "encode_error ?vs (children (nsL ! x))")
        case (Some e)
        then show ?thesis
          using assms l l' True
          by (simp add: insert_word_nodes_def Inr x read_nodes_def write_nodes_def)
      next
        case None
        with assms l True have r: "r = Inr ()" and ns1: "ns1 = nsL[x := ?nd]"
          by (simp_all add: insert_word_nodes_def Inr x read_nodes_def write_nodes_def put_node_def)
        have d: "descend_nodes bs 0 nsL = Inr (Some x)"
          using descend_after_insert_loop[OF l[unfolded x]] .
        have "extends nsL ns1" unfolding ns1 using True by (intro extends_update_values) simp_all
        from insert_loop_nodes_existing[OF descend_nodes_extends[OF this d]]
        have l1: "insert_loop_nodes bs 0 ns1 = (Inr x, ns1)" .
        have nd: "ns1 ! x = ?nd" and x1: "x < length ns1" using True by (simp_all add: ns1)
        have same: "(ns1 ! x)\<lparr>is_terminal := True,
            node_values := add_value (node_values (ns1 ! x)) v\<rparr> = ns1 ! x"
          by (simp add: nd add_value_idem)
        have "encode_error (node_values (ns1 ! x)) (children (ns1 ! x)) = None"
          using None by (simp add: nd)
        then have w: "write_nodes x (ns1 ! x) ns1 = (Inr (), ns1)"
          using x1 by (simp add: write_nodes_def put_node_def)
        have "insert_word_nodes k v ns1 =
            write_nodes x ((ns1 ! x)\<lparr>is_terminal := True,
              node_values := add_value (node_values (ns1 ! x)) v\<rparr>) ns1"
          using x1 by (simp add: insert_word_nodes_def Inr l1 read_nodes_def)
        then show ?thesis by (simp only: same w r)
      qed
    qed
  qed
qed

subsection \<open>Inserts that run into the ceiling of identifiers\<close>

text \<open>From a node without edges, a key longer than the room left in the file raises.\<close>

lemma insert_loop_nodes_fresh_overflow:
  "trie_inv ns \<Longrightarrow> n < length ns \<Longrightarrow> is_fresh (ns ! n) \<Longrightarrow>
   65536 < length ns + length bs \<Longrightarrow> isl (fst (insert_loop_nodes bs n ns))"
proof (induction bs arbitrary: n ns)
  case Nil
  then show ?case by (simp add: trie_inv_def)
next
  case (Cons c cs)
  from Cons.prems(3) have nf: "find_child (children (ns ! n)) c = None"
    by (simp add: is_fresh_def)
  show ?case
  proof (cases n c ns rule: find_or_create_child_nodes_cases)
    case absent
    then show ?thesis by simp
  next
    case (found y)
    then show ?thesis using nf by simp
  next
    case (failed e)
    then show ?thesis by simp
  next
    case created
    let ?ns1 = "ns[n := add_child (ns ! n) c (length ns)] @ [fresh_node c]"
    have inv1: "trie_inv ?ns1" using trie_inv_created[OF Cons.prems(1) created(1,2,3)] .
    have y: "length ns < length ?ns1" by simp
    have fr: "is_fresh (?ns1 ! length ns)" by (simp add: nth_append is_fresh_def fresh_node_def)
    have room: "65536 < length ?ns1 + length cs" using Cons.prems(4) by simp
    from Cons.IH[OF inv1 y fr room] show ?thesis using created(4) by simp
  qed
qed

lemma insert_loop_nodes_missing_overflow:
  assumes inv: "trie_inv ns" and x: "x < length ns"
    and nf: "find_child (children (ns ! x)) c = None"
    and room: "65536 < length ns + length (c # rest)"
  shows "isl (fst (insert_loop_nodes (c # rest) x ns))"
proof (cases x c ns rule: find_or_create_child_nodes_cases)
  case absent
  then show ?thesis by simp
next
  case (found y)
  then show ?thesis using nf by simp
next
  case (failed e)
  then show ?thesis by simp
next
  case created
  let ?ns1 = "ns[x := add_child (ns ! x) c (length ns)] @ [fresh_node c]"
  have inv1: "trie_inv ?ns1" using trie_inv_created[OF inv created(1,2,3)] .
  have y: "length ns < length ?ns1" by simp
  have fr: "is_fresh (?ns1 ! length ns)" by (simp add: nth_append is_fresh_def fresh_node_def)
  have "65536 < length ?ns1 + length rest" using room by simp
  from insert_loop_nodes_fresh_overflow[OF inv1 y fr this] show ?thesis
    using created(4) by simp
qed

lemma insert_loop_nodes_append:
  "descend_nodes pre n ns = Inr (Some x) \<Longrightarrow>
   insert_loop_nodes (pre @ rest) n ns = insert_loop_nodes rest x ns"
proof (induction pre arbitrary: n)
  case Nil
  then show ?case by simp
next
  case (Cons b pre)
  from Cons.prems have n: "n < length ns"
    by (auto simp: read_nodes_def split: if_splits)
  with Cons.prems obtain y where y: "find_child (children (ns ! n)) b = Some y"
    and d: "descend_nodes pre y ns = Inr (Some x)"
    by (auto simp: read_nodes_def split: option.splits)
  from find_or_create_child_nodes_found[OF n y] Cons.IH[OF d] show ?case by simp
qed

lemma edge_path_nodes:
  assumes "represents s ns" and "edge_path s n pre x"
  shows "descend_nodes pre n ns = Inr (Some x)"
  using descend_edge_path[OF assms(2)] descend_refines[OF assms(1), of pre n] by simp

lemma no_edge_nodes:
  assumes "represents s ns" and "no_edge s x c"
  shows "x < length ns \<and> find_child (children (ns ! x)) c = None"
  using assms(2) fst_read_node_repr[OF assms(1), of x]
  by (auto simp: no_edge_def read_nodes_def find_child_map_of split: if_splits)

lemma insert_word_crossing:
  assumes r: "represents s ns" and bs: "encode_utf8 k = Inr bs" and sp: "bs = pre @ c # rest"
    and p: "edge_path s 0 pre x" and ne: "no_edge s x c"
    and room: "65536 < length (content s) div NODE_SIZE + length (c # rest)"
  shows "isl (fst (insert_word k v s)) \<and>
         length (content (snd (insert_word k v s))) div NODE_SIZE \<le> 65536"
proof -
  from r have inv: "trie_inv ns" by (simp add: represents_def)
  from no_edge_nodes[OF r ne] have x: "x < length ns"
    and nf: "find_child (children (ns ! x)) c = None" by simp_all
  from room node_count_repr[OF r] have "65536 < length ns + length (c # rest)" by simp
  from insert_loop_nodes_missing_overflow[OF inv x nf this]
  have "isl (fst (insert_loop_nodes (c # rest) x ns))" .
  then have "isl (fst (insert_loop_nodes bs 0 ns))"
    using insert_loop_nodes_append[OF edge_path_nodes[OF r p], of "c # rest"] sp by simp
  then have "isl (fst (insert_word_nodes k v ns))"
    by (cases "insert_loop_nodes bs 0 ns"; cases "fst (insert_loop_nodes bs 0 ns)")
      (auto simp: insert_word_nodes_def bs)
  then have a: "isl (fst (insert_word k v s))" using insert_word_refines[OF r, of k v] by simp
  from insert_word_refines[OF r, of k v]
  have r': "represents (snd (insert_word k v s)) (snd (insert_word_nodes k v ns))" by simp
  then have "length (content (snd (insert_word k v s))) div NODE_SIZE \<le> 65536"
    using node_count_repr[OF r'] by (simp add: represents_def trie_inv_def)
  with a show ?thesis by simp
qed

lemma child_ids_repr:
  assumes re: "reachable s" and rd: "fst (read_node p s) = Inr (Some nd)"
    and m: "(c, i) \<in> set (children nd)"
  shows "i \<le> 65535 \<and> i < length (content s) div NODE_SIZE"
proof -
  from reachable_represents[OF re] obtain ns where r: "represents s ns" by blast
  then have inv: "trie_inv ns" by (simp add: represents_def)
  from fst_read_node_repr[OF r, of p] rd have p: "p < length ns" and nd: "nd = ns ! p"
    by (auto simp: read_nodes_def split: if_splits)
  from trie_inv_nth[OF inv p] m have "i < length ns"
    by (auto simp: node_inv_def list_all_iff nd)
  moreover from inv have "length ns \<le> 65536" by (simp add: trie_inv_def)
  ultimately show ?thesis using node_count_repr[OF r] by simp
qed

lemma encode_utf8_ascii:
  "\<forall>cp \<in> set cps. cp < 128 \<Longrightarrow> encode_utf8 cps = Inr (map of_nat cps)"
  by (induction cps) (simp_all add: utf8_char_def)

subsection \<open>A new edge is appended whatever the size of the table\<close>

text \<open>
  When \<^verbatim>\<open>_find_or_create_child\<close> finds no edge for the byte, it appends one to the
  parent's table, whatever the number of entries already there, as long as the count
  still fits its byte and the new identifier its 16 bits; the new node is written at
  the end of the file, which grows by one record. \<^verbatim>\<open>MAX_CHILDREN\<close> is not consulted.
\<close>

lemma find_or_create_child_appends:
  assumes re: "reachable s" and rd: "fst (read_node p s) = Inr (Some nd)"
    and nf: "find_child (children nd) c = None" and room: "length (children nd) < 255"
    and n: "length (content s) div NODE_SIZE \<le> 65535"
  shows "fst (find_or_create_child p c s) = Inr (length (content s) div NODE_SIZE) \<and>
         fst (read_node p (snd (find_or_create_child p c s))) =
           Inr (Some (nd\<lparr>children := children nd @ [(c, length (content s) div NODE_SIZE)]\<rparr>)) \<and>
         fst (read_node (length (content s) div NODE_SIZE) (snd (find_or_create_child p c s))) =
           Inr (Some (fresh_node c)) \<and>
         length (content (snd (find_or_create_child p c s))) = length (content s) + NODE_SIZE"
proof -
  from reachable_represents[OF re] obtain ns where r: "represents s ns" by blast
  then have inv: "trie_inv ns" by (simp add: represents_def)
  from fst_read_node_repr[OF r, of p] rd
  have p: "p < length ns" and nd: "nd = ns ! p"
    by (auto simp: read_nodes_def split: if_splits)
  have cnt: "length (content s) div NODE_SIZE = length ns" using node_count_repr[OF r] .
  let ?s' = "snd (find_or_create_child p c s)"
  let ?ns' = "ns[p := add_child (ns ! p) c (length ns)] @ [fresh_node c]"
  from find_or_create_child_nodes_new[OF inv p] nf room n
  have f: "find_or_create_child_nodes p c ns = (Inr (length ns), ?ns')"
    by (simp add: nd cnt)
  from find_or_create_child_refines[OF r, of p c] f
  have f1: "fst (find_or_create_child p c s) = Inr (length ns)"
    and r': "represents ?s' ?ns'"
    by simp_all
  from fst_read_node_repr[OF r', of p] p
  have a: "fst (read_node p ?s') = Inr (Some (add_child (ns ! p) c (length ns)))"
    by (simp add: read_nodes_def nth_append)
  from fst_read_node_repr[OF r', of "length ns"]
  have b: "fst (read_node (length ns) ?s') = Inr (Some (fresh_node c))"
    by (simp add: read_nodes_def nth_append)
  have l: "length (content ?s') = length (content s) + NODE_SIZE"
    using length_content_repr[OF r'] length_content_repr[OF r] by simp
  show ?thesis using f1 a b l by (simp add: cnt add_child_def nd)
qed

subsection \<open>C1: the keys of \<^verbatim>\<open>prefix_search\<close>\<close>

text \<open>
  C1 fails on the code for a key with a character of several bytes. After
  an insert of the value 1 under the key of the one character U+00E9, whose UTF-8
  encoding is the two bytes 195 and 169, \<open>lookup\<close> of the key returns \<open>[1]\<close>, but
  \<open>prefix_search("")\<close> returns the one entry whose key is the two characters U+00C3
  and U+00A9, each made by \<^verbatim>\<open>chr\<close> from one byte: no entry has the inserted key.
  The recursion limit plays no part: three frames are enough.
\<close>

theorem prefix_search_multibyte_key:
  "fst (insert_word [233] 1 (snd (init_trie []))) = Inr () \<and>
   encode_utf8 [233] = Inr [195, 169] \<and>
   fst (prefix_search (Suc (Suc (Suc depth))) [] (snd (insert_word [233] 1 (snd (init_trie []))))) =
     Inr [([195, 169], [1])] \<and>
   fst (lookup [233] (snd (insert_word [233] 1 (snd (init_trie []))))) = Inr [1]"
proof -
  define S where "S = snd (insert_word [233] 1 (snd (init_trie [])))"
  define ns where "ns = snd (insert_word_nodes [233] 1 [root_node])"
  have r: "represents S ns"
    unfolding S_def ns_def using insert_word_refines[OF init_trie_new] by blast
  have a: "fst (insert_word [233] 1 (snd (init_trie []))) = Inr ()"
    using insert_word_refines[OF init_trie_new, of "[233]" 1] by (simp add: nodes_eval)
  have b: "encode_utf8 [233] = Inr [195, 169]" by (simp add: utf8_char_def)
  have c: "fst (prefix_search (Suc (Suc (Suc depth))) [] S) = Inr [([195, 169], [1])]"
    using prefix_search_refines[OF r, of "Suc (Suc (Suc depth))" "[]"]
    unfolding ns_def by (simp add: nodes_eval)
  have d: "fst (lookup [233] S) = Inr [1]"
    using lookup_refines[OF r, of "[233]"] unfolding ns_def by (simp add: nodes_eval)
  show ?thesis using a b c d unfolding S_def by simp
qed

subsection \<open>C2: what \<^verbatim>\<open>_read_node\<close> checks\<close>

text \<open>
  Against C2, \<^verbatim>\<open>_read_node\<close> returns a decoded node from a file cut short after 36 bytes,
  from a record whose value count is 9, and from a record whose child count is 65.
\<close>

theorem read_node_validation_counterexample:
  "fst (read_node 0 \<lparr>content = replicate 36 0, position = 0\<rparr>) =
     Inr (Some \<lparr>node_char = [0], is_terminal = False, node_values = [], children = []\<rparr>) \<and>
   fst (read_node 0 \<lparr>content = (replicate 1024 0)[2 := 9], position = 0\<rparr>) =
     Inr (Some \<lparr>node_char = [0], is_terminal = False,
                node_values = [0, 0, 0, 0, 0, 0, 0, 0, 0], children = []\<rparr>) \<and>
   (case fst (read_node 0 \<lparr>content = (replicate 1024 0)[35 := 65], position = 0\<rparr>) of
      Inr (Some nd) \<Rightarrow> length (children nd) = 65 \<and> MAX_CHILDREN < length (children nd)
    | _ \<Rightarrow> False)"
proof -
  have a: "fst (read_node 0 \<lparr>content = replicate 36 0, position = 0\<rparr>) =
     Inr (Some \<lparr>node_char = [0], is_terminal = False, node_values = [], children = []\<rparr>)"
    by code_simp
  have b: "fst (read_node 0 \<lparr>content = (replicate 1024 0)[2 := 9], position = 0\<rparr>) =
     Inr (Some \<lparr>node_char = [0], is_terminal = False,
                node_values = [0, 0, 0, 0, 0, 0, 0, 0, 0], children = []\<rparr>)"
    by code_simp
  have "(0 + 1) * NODE_SIZE \<le>
      length (content \<lparr>content = (replicate 1024 0)[35 := 65], position = 0\<rparr>)"
    by (simp add: NODE_SIZE_def)
  from read_node_full_record[OF this]
  have c: "case fst (read_node 0 \<lparr>content = (replicate 1024 0)[35 := 65], position = 0\<rparr>) of
      Inr (Some nd) \<Rightarrow> length (children nd) = 65 \<and> MAX_CHILDREN < length (children nd)
    | _ \<Rightarrow> False"
    by (auto simp: MAX_CHILDREN_def)
  show ?thesis using a b c by simp
qed

text \<open>
  C2, amended. \<^verbatim>\<open>_read_node\<close> has no check of its own. Where no byte is left at the
  offset it returns \<open>None\<close>, without an error. Where a whole record is there it returns
  a decoded node, with as many values and children as the two count bytes say, whatever
  they say. It raises only on a record that is cut short: at least one byte and fewer than
  \<open>NODE_SIZE\<close> are there.
\<close>

theorem read_node_no_validation:
  "(length (content s) \<le> node_id * NODE_SIZE \<longrightarrow> fst (read_node node_id s) = Inr None) \<and>
   ((node_id + 1) * NODE_SIZE \<le> length (content s) \<longrightarrow>
      (\<exists>nd. fst (read_node node_id s) = Inr (Some nd) \<and>
         length (node_values nd) = unat (content s ! (node_id * NODE_SIZE + 2)) \<and>
         length (children nd) = unat (content s ! (node_id * NODE_SIZE + 35)))) \<and>
   (fst (read_node node_id s) = Inl e \<longrightarrow>
      node_id * NODE_SIZE < length (content s) \<and>
      length (content s) < (node_id + 1) * NODE_SIZE)"
proof -
  have c: "node_id * NODE_SIZE < length (content s) \<and>
      length (content s) < (node_id + 1) * NODE_SIZE" if "fst (read_node node_id s) = Inl e"
  proof (rule ccontr)
    assume "\<not> ?thesis"
    then consider "length (content s) \<le> node_id * NODE_SIZE"
      | "(node_id + 1) * NODE_SIZE \<le> length (content s)" by linarith
    then show False
      using read_node_past_end[of s node_id] read_node_full_record[of node_id s] that
      by cases auto
  qed
  show ?thesis using read_node_past_end read_node_full_record c by blast
qed

theorem read_node_no_validation_witness:
  "fst (read_node 1 \<lparr>content = replicate 1024 0, position = 0\<rparr>) = Inr None \<and>
   (\<exists>nd. fst (read_node 0 \<lparr>content = replicate 1024 0, position = 0\<rparr>) = Inr (Some nd) \<and>
      length (node_values nd) = 0 \<and> length (children nd) = 0) \<and>
   fst (read_node 0 \<lparr>content = [7], position = 0\<rparr>) = Inl IndexError \<and>
   0 * NODE_SIZE < length [7 :: byte] \<and> length [7 :: byte] < (0 + 1) * NODE_SIZE"
proof -
  have f: "fst (read_node 0 \<lparr>content = [7], position = 0\<rparr>) = Inl IndexError"
    by (simp add: read_node_unfold decode_record_def NODE_SIZE_def)
  show ?thesis
    using read_node_no_validation[of "\<lparr>content = replicate 1024 0, position = 0\<rparr>" 1]
      read_node_no_validation[of "\<lparr>content = replicate 1024 0, position = 0\<rparr>" 0]
      read_node_no_validation[of "\<lparr>content = [7], position = 0\<rparr>" 0 IndexError] f
    by (simp add: NODE_SIZE_def)
qed

subsection \<open>C3: the child table\<close>

text \<open>
  C3 fails on the code. \<^verbatim>\<open>_find_or_create_child\<close> appends the new edge without
  looking at the size of the table: \<^verbatim>\<open>MAX_CHILDREN\<close> is declared and never read, where
  \<^verbatim>\<open>MAX_VALUES\<close> is checked by \<^verbatim>\<open>insert\<close>. After the 65 one-character keys \<open>"0"\<close> to
  \<open>"p"\<close> (the bytes 48 to 112) have been inserted into a new file, each with the
  value 1, the child table of the root holds 65 entries, more than \<open>MAX_CHILDREN\<close>:
  the 65th edge was added, not dropped.
\<close>

theorem child_table_exceeds_max_children:
  "(case fst (read_node 0
       (snd (insert_all (map (\<lambda>c. ([c], 1)) [48..<113]) (snd (init_trie []))))) of
      Inr (Some nd) \<Rightarrow> length (children nd) = 65 \<and> MAX_CHILDREN < length (children nd)
    | _ \<Rightarrow> False)"
proof -
  define S where "S = snd (insert_all (map (\<lambda>c. ([c], 1)) [48..<113]) (snd (init_trie [])))"
  define ns where "ns = snd (insert_all_nodes (map (\<lambda>c. ([c], 1)) [48..<113]) [root_node])"
  have r: "represents S ns"
    unfolding S_def ns_def using insert_all_refines[OF init_trie_new] by blast
  then have "0 < length ns" by (simp add: represents_def trie_inv_def)
  then have rd: "fst (read_node 0 S) = Inr (Some (ns ! 0))"
    using fst_read_node_repr[OF r, of 0] by (simp add: read_nodes_def)
  have "length (children (ns ! 0)) = 65"
    unfolding ns_def by (simp add: nodes_eval upt_rec_numeral)
  then show ?thesis
    unfolding S_def[symmetric] by (simp add: rd MAX_CHILDREN_def)
qed

subsection \<open>C4: two values under one key\<close>

text \<open>
  C4. In a store the program has produced, let \<open>insert(k, v1)\<close> and then
  \<open>insert(k, v2)\<close> return, for two different values. Then \<open>lookup(k)\<close> returned a
  duplicate-free list \<open>old\<close> before, and where \<open>old\<close> with the new ones among \<open>v1\<close>,
  \<open>v2\<close> counts at most \<open>MAX_VALUES\<close> entries, \<open>lookup(k)\<close> now returns \<open>old\<close>
  followed by the new ones in the order of their insertion: a list that contains both
  values and no value twice.
\<close>

theorem insert_two_values_lookup:
  assumes "reachable s" and "v1 \<noteq> v2"
    and "insert_word k v1 s = (Inr (), s1)" and "insert_word k v2 s1 = (Inr (), s2)"
  shows "\<exists>old res. fst (lookup k s) = Inr old \<and>
           res = old @ filter (\<lambda>v. v \<notin> set old) [v1, v2] \<and>
           (length res \<le> MAX_VALUES \<longrightarrow>
              fst (lookup k s2) = Inr res \<and> v1 \<in> set res \<and> v2 \<in> set res \<and> distinct res)"
proof -
  from reachable_represents[OF assms(1)] obtain ns where r: "represents s ns" by blast
  from insert_word_ok_nodes[OF r assms(3)] obtain ns1 where
    i1: "insert_word_nodes k v1 ns = (Inr (), ns1)" and r1: "represents s1 ns1" by blast
  from insert_word_ok_nodes[OF r1 assms(4)] obtain ns2 where
    i2: "insert_word_nodes k v2 ns1 = (Inr (), ns2)" and r2: "represents s2 ns2" by blast
  from r r1 have inv: "trie_inv ns" and inv1: "trie_inv ns1" by (simp_all add: represents_def)
  from lookup_nodes_after_insert[OF inv i1] obtain old where
    l0: "lookup_nodes k ns = Inr old" and l1: "lookup_nodes k ns1 = Inr (add_value old v1)"
    by blast
  from lookup_nodes_after_insert[OF inv1 i2] l1
  have l2: "lookup_nodes k ns2 = Inr (add_value (add_value old v1) v2)" by simp
  from lookup_nodes_values[OF inv l0] have d: "distinct old" by simp
  let ?res = "old @ filter (\<lambda>v. v \<notin> set old) [v1, v2]"
  have "fst (lookup k s) = Inr old" using lookup_refines[OF r, of k] l0 by simp
  moreover have "fst (lookup k s2) = Inr ?res" if "length ?res \<le> MAX_VALUES"
    using lookup_refines[OF r2, of k] l2 add_value_twice[OF assms(2) that] by simp
  moreover have "v1 \<in> set ?res" "v2 \<in> set ?res" by auto
  moreover have "distinct ?res" using d assms(2) by auto
  ultimately show ?thesis by blast
qed

theorem insert_two_values_lookup_witness:
  "fst (lookup [99, 97, 116]
     (snd (insert_word [99, 97, 116] 2
        (snd (insert_word [99, 97, 116] 1 (snd (init_trie []))))))) = Inr [1, 2]"
proof -
  let ?k = "[99, 97, 116] :: pystr"
  let ?s = "snd (init_trie [])"
  let ?s1 = "snd (insert_word ?k 1 ?s)"
  let ?s2 = "snd (insert_word ?k 2 ?s1)"
  let ?ns1 = "snd (insert_word_nodes ?k 1 [root_node])"
  have r1: "represents ?s1 ?ns1" using insert_word_refines[OF init_trie_new] by blast
  have "fst (insert_word ?k 1 ?s) = Inr ()"
    using insert_word_refines[OF init_trie_new, of ?k 1] by (simp add: nodes_eval)
  then have h1: "insert_word ?k 1 ?s = (Inr (), ?s1)" by (simp add: prod_eq_iff)
  have "fst (insert_word ?k 2 ?s1) = Inr ()"
    using insert_word_refines[OF r1, of ?k 2] by (simp add: nodes_eval)
  then have h2: "insert_word ?k 2 ?s1 = (Inr (), ?s2)" by (simp add: prod_eq_iff)
  have l0: "fst (lookup ?k ?s) = Inr []"
    using lookup_refines[OF init_trie_new, of ?k] by (simp add: nodes_eval)
  from insert_two_values_lookup[OF reachable_init _ h1 h2, of] l0
  show ?thesis by (simp add: MAX_VALUES_def)
qed

subsection \<open>C5: the ninth value\<close>

text \<open>
  C5. In a store the program has produced: nine distinct values inserted, each insert
  returning, under a key that had none leave \<open>lookup(key)\<close> with the first eight in
  the order of insertion, the ninth absent; and under a key whose lookup gives
  \<open>MAX_VALUES\<close> values an insert of any value returns without an error and
  \<open>lookup(key)\<close> gives the same values after it (so the node is still terminal).
\<close>

theorem value_capacity:
  assumes "reachable s"
  shows "(fst (lookup k s) = Inr [] \<and> distinct vs \<and> length vs = 9 \<and>
          insert_all (map (Pair k) vs) s = (Inr (), s') \<longrightarrow>
            fst (lookup k s') = Inr (take 8 vs) \<and> vs ! 8 \<notin> set (take 8 vs)) \<and>
         (fst (lookup k s) = Inr old \<and> length old = MAX_VALUES \<longrightarrow>
            fst (insert_word k v s) = Inr () \<and>
            fst (lookup k (snd (insert_word k v s))) = Inr old)"
proof -
  from reachable_represents[OF assms] obtain ns where r: "represents s ns" by blast
  then have inv: "trie_inv ns" by (simp add: represents_def)
  have l: "fst (lookup k s) = lookup_nodes k ns" using lookup_refines[OF r] by simp
  have a: "fst (lookup k s') = Inr (take 8 vs) \<and> vs ! 8 \<notin> set (take 8 vs)"
    if e: "fst (lookup k s) = Inr []" and d: "distinct vs" and n: "length vs = 9"
      and i: "insert_all (map (Pair k) vs) s = (Inr (), s')"
  proof -
    from insert_all_ok_nodes[OF r i] obtain ns' where
      i': "insert_all_nodes (map (Pair k) vs) ns = (Inr (), ns')" and r': "represents s' ns'"
      by blast
    from lookup_nodes_after_insert_all[OF inv i'] e l
    have "lookup_nodes k ns' = Inr (foldl add_value [] vs)" by simp
    also have "foldl add_value [] vs = take 8 vs"
      using foldl_add_value_new[OF d, of "[]"] by (simp add: MAX_VALUES_def)
    finally have "fst (lookup k s') = Inr (take 8 vs)" using lookup_refines[OF r', of k] by simp
    moreover have "vs ! 8 \<notin> set (take 8 vs)"
    proof
      assume "vs ! 8 \<in> set (take 8 vs)"
      then obtain j where "j < 8" "take 8 vs ! j = vs ! 8"
        using n by (auto simp: in_set_conv_nth)
      then have "vs ! j = vs ! 8" "j \<noteq> 8" by simp_all
      with d n \<open>j < 8\<close> show False by (simp add: nth_eq_iff_index_eq)
    qed
    ultimately show ?thesis by simp
  qed
  have b: "fst (insert_word k v s) = Inr () \<and> fst (lookup k (snd (insert_word k v s))) = Inr old"
    if e: "fst (lookup k s) = Inr old" and n: "length old = MAX_VALUES"
  proof -
    from e l have lo: "lookup_nodes k ns = Inr old" by simp
    from n have "old \<noteq> []" by (auto simp: MAX_VALUES_def)
    from lookup_nodes_nonempty[OF lo this] obtain bs x where
      bs: "encode_utf8 k = Inr bs" and d: "descend_nodes bs 0 ns = Inr (Some x)"
      and vs: "node_values (ns ! x) = old" by blast
    have c: "v \<in> set (node_values (ns ! x)) \<or> MAX_VALUES \<le> length (node_values (ns ! x)) \<or>
        (0 \<le> v \<and> v \<le> 4294967295)"
      using n by (simp add: vs)
    from insert_word_nodes_existing(1)[OF inv bs d c]
    have ok: "fst (insert_word_nodes k v ns) = Inr ()" .
    then have i: "insert_word_nodes k v ns = (Inr (), snd (insert_word_nodes k v ns))"
      by (simp add: prod_eq_iff)
    from lookup_nodes_after_insert[OF inv i] lo
    have "lookup_nodes k (snd (insert_word_nodes k v ns)) = Inr (add_value old v)" by simp
    then have "lookup_nodes k (snd (insert_word_nodes k v ns)) = Inr old"
      using n by (simp add: add_value_full)
    with insert_word_refines[OF r, of k v] ok show ?thesis
      using lookup_refines[of "snd (insert_word k v s)" "snd (insert_word_nodes k v ns)" k]
      by simp
  qed
  show ?thesis using a b by blast
qed

theorem value_capacity_witness:
  "fst (lookup [107]
     (snd (insert_all (map (Pair [107]) [11, 12, 13, 14, 15, 16, 17, 18, 19]) (snd (init_trie []))))) =
     Inr [11, 12, 13, 14, 15, 16, 17, 18] \<and>
   fst (insert_word [107] 20
     (snd (insert_all (map (Pair [107]) [11, 12, 13, 14, 15, 16, 17, 18]) (snd (init_trie []))))) =
     Inr () \<and>
   fst (lookup [107] (snd (insert_word [107] 20
     (snd (insert_all (map (Pair [107]) [11, 12, 13, 14, 15, 16, 17, 18]) (snd (init_trie []))))))) =
     Inr [11, 12, 13, 14, 15, 16, 17, 18]"
proof -
  let ?k = "[107] :: pystr"
  let ?s = "snd (init_trie [])"
  let ?vs = "[11, 12, 13, 14, 15, 16, 17, 18, 19] :: int list"
  let ?s9 = "snd (insert_all (map (Pair ?k) ?vs) ?s)"
  let ?old = "[11, 12, 13, 14, 15, 16, 17, 18] :: int list"
  let ?s8 = "snd (insert_all (map (Pair ?k) ?old) ?s)"
  have "fst (insert_all (map (Pair ?k) ?vs) ?s) = Inr ()"
    using insert_all_refines[OF init_trie_new, of "map (Pair ?k) ?vs"] by (simp add: nodes_eval)
  then have h1: "insert_all (map (Pair ?k) ?vs) ?s = (Inr (), ?s9)" by (simp add: prod_eq_iff)
  have l0: "fst (lookup ?k ?s) = Inr []"
    using lookup_refines[OF init_trie_new, of ?k] by (simp add: nodes_eval)
  have r8: "represents ?s8 (snd (insert_all_nodes (map (Pair ?k) ?old) [root_node]))"
    using insert_all_refines[OF init_trie_new] by blast
  have l8: "fst (lookup ?k ?s8) = Inr ?old"
    using lookup_refines[OF r8, of ?k] by (simp add: nodes_eval)
  have re8: "reachable ?s8" using reachable_insert_all[OF reachable_init] .
  from value_capacity[OF reachable_init, of ?k ?vs ?s9] l0 h1
  have a: "fst (lookup ?k ?s9) = Inr ?old" by simp
  from value_capacity[OF re8, of ?k "[]" ?s8 ?old 20] l8
  have b: "fst (insert_word ?k 20 ?s8) = Inr () \<and>
      fst (lookup ?k (snd (insert_word ?k 20 ?s8))) = Inr ?old"
    by (simp add: MAX_VALUES_def)
  show ?thesis using a b by simp
qed

subsection \<open>C6: what \<^verbatim>\<open>lookup\<close> returns\<close>

text \<open>
  C6. For a key that encodes to the bytes \<open>bs\<close>, on any store: where the edges from
  the root lead along a proper prefix of \<open>bs\<close> to a node that has no edge for the next
  byte, \<open>lookup\<close> returns the empty list; where they lead along all of \<open>bs\<close> to a
  node, \<open>lookup\<close> returns that node's values if the node is terminal and the empty
  list otherwise; in every case \<open>lookup\<close> leaves the file as it is, so it allocates
  nothing; and on a store the program has produced \<open>lookup\<close> does return.
\<close>

theorem lookup_follows_edges:
  assumes "encode_utf8 k = Inr bs"
  shows "(bs = pre @ c # rest \<and> edge_path s 0 pre x \<and> no_edge s x c \<longrightarrow>
            fst (lookup k s) = Inr []) \<and>
         (edge_path s 0 bs x \<and> fst (read_node x s) = Inr (Some nd) \<longrightarrow>
            fst (lookup k s) = Inr (if is_terminal nd then node_values nd else [])) \<and>
         content (snd (lookup k s)) = content s \<and>
         (reachable s \<longrightarrow> (\<exists>vs. fst (lookup k s) = Inr vs))"
proof -
  have a: "fst (lookup k s) = Inr []"
    if "bs = pre @ c # rest" "edge_path s 0 pre x" "no_edge s x c"
    using descend_no_edge[OF that(2,3), of rest] that(1)
    by (cases "descend bs 0 s") (simp add: lookup_def assms)
  have b: "fst (lookup k s) = Inr (if is_terminal nd then node_values nd else [])"
    if p: "edge_path s 0 bs x" and rd: "fst (read_node x s) = Inr (Some nd)"
  proof -
    obtain s1 where d: "descend bs 0 s = (Inr (Some x), s1)"
      using descend_edge_path[OF p] by (cases "descend bs 0 s") simp
    then have "content s1 = content s" using content_descend[of bs 0 s] by simp
    from read_node_cong[OF this, of x] rd obtain s2 where
      "read_node x s1 = (Inr (Some nd), s2)" by (cases "read_node x s1") simp
    then show ?thesis by (simp add: lookup_def assms d)
  qed
  have c: "\<exists>vs. fst (lookup k s) = Inr vs" if "reachable s"
  proof -
    from reachable_represents[OF that] obtain ns where r: "represents s ns" by blast
    then have "trie_inv ns" by (simp add: represents_def)
    from lookup_nodes_total[OF this assms] lookup_refines[OF r, of k] show ?thesis by simp
  qed
  show ?thesis using a b c content_lookup[of k s] by blast
qed

theorem lookup_follows_edges_witness:
  "fst (lookup [99, 97, 116] (snd (insert_word [99, 97, 116] 1 (snd (init_trie []))))) = Inr [1] \<and>
   fst (lookup [99, 97] (snd (insert_word [99, 97, 116] 1 (snd (init_trie []))))) = Inr [] \<and>
   fst (lookup [99, 97, 98] (snd (insert_word [99, 97, 116] 1 (snd (init_trie []))))) = Inr []"
proof -
  define S where "S = snd (insert_word [99, 97, 116] 1 (snd (init_trie [])))"
  define ns where "ns = snd (insert_word_nodes [99, 97, 116] 1 [root_node])"
  have r: "represents S ns"
    unfolding S_def ns_def using insert_word_refines[OF init_trie_new] by blast
  have re: "reachable S" unfolding S_def using reachable_insert[OF reachable_init] .
  have ns: "ns =
      [\<lparr>node_char = [0], is_terminal = False, node_values = [], children = [(99, 1)]\<rparr>,
       \<lparr>node_char = [99], is_terminal = False, node_values = [], children = [(97, 2)]\<rparr>,
       \<lparr>node_char = [97], is_terminal = False, node_values = [], children = [(116, 3)]\<rparr>,
       \<lparr>node_char = [116], is_terminal = True, node_values = [1], children = []\<rparr>]"
    unfolding ns_def by (simp add: nodes_eval add_child_def fresh_node_def)
  have rd0: "fst (read_node 0 S) =
      Inr (Some \<lparr>node_char = [0], is_terminal = False, node_values = [], children = [(99, 1)]\<rparr>)"
    and rd1: "fst (read_node 1 S) =
      Inr (Some \<lparr>node_char = [99], is_terminal = False, node_values = [], children = [(97, 2)]\<rparr>)"
    and rd2: "fst (read_node 2 S) =
      Inr (Some \<lparr>node_char = [97], is_terminal = False, node_values = [], children = [(116, 3)]\<rparr>)"
    and rd3: "fst (read_node 3 S) =
      Inr (Some \<lparr>node_char = [116], is_terminal = True, node_values = [1], children = []\<rparr>)"
    using fst_read_node_repr[OF r] by (simp_all add: read_nodes_def ns)
  have e: "edge S 0 99 1" "edge S 1 97 2" "edge S 2 116 3"
    using rd0 rd1 rd2 by (simp_all add: edge_def)
  have p2: "edge_path S 0 [99, 97] 2" using e by auto
  have p3: "edge_path S 0 [99, 97, 116] 3" using e by auto
  have ne: "no_edge S 2 98" using rd2 by (simp add: no_edge_def)
  have k3: "encode_utf8 [99, 97, 116] = Inr [99, 97, 116]"
    and k2: "encode_utf8 [99, 97] = Inr [99, 97]"
    and kb: "encode_utf8 [99, 97, 98] = Inr [99, 97, 98]"
    by (simp_all add: utf8_char_def)
  have a: "fst (lookup [99, 97, 116] S) = Inr [1]"
    using lookup_follows_edges[OF k3, of "[]" 0 "[]" S 3] p3 rd3 by simp
  have b: "fst (lookup [99, 97] S) = Inr []"
    using lookup_follows_edges[OF k2, of "[]" 0 "[]" S 2] p2 rd2 by simp
  have c: "fst (lookup [99, 97, 98] S) = Inr []"
    using lookup_follows_edges[OF kb, of "[99, 97]" 98 "[]" S 2] p2 ne by simp
  show ?thesis using a b c unfolding S_def by simp
qed

subsection \<open>C7: the ceiling of 65536 nodes\<close>

text \<open>
  C7. An insert that would take the file past 65536 nodes raises. On any file of 65536
  nodes or more, an insert whose key has no complete path raises and leaves the file as
  it was. On a file below the ceiling, one the program has produced or any file of
  well-formed records, an insert raises as soon as the bytes of the key from the first
  missing edge on are more than the identifiers left, and the file ends with at most
  65536 nodes. The identifier that does not fit 16 bits is never written, neither
  wrapped nor truncated. A file the program has produced, the files between the steps
  of an insert included, never holds more than 65536 nodes; every identifier in a child
  table of it fits 16 bits and names a node of the file; and whenever
  \<^verbatim>\<open>_find_or_create_child\<close> returns there, the identifier it returns fits 16 bits, names
  a node of the file, is the one the parent's table, read back, gives for the byte, and,
  where the edge was missing before, is the identifier that was allocated (the former
  number of nodes).
\<close>

theorem node_id_ceiling:
  "(encode_utf8 k = Inr bs \<and> fst (descend bs 0 s) = Inr None \<and>
    65536 \<le> length (content s) div NODE_SIZE \<longrightarrow>
      isl (fst (insert_word k v s)) \<and> content (snd (insert_word k v s)) = content s) \<and>
   ((reachable s \<or> represents s ns0) \<and> encode_utf8 k = Inr bs \<and> bs = pre @ b # rest \<and>
    edge_path s 0 pre y \<and> no_edge s y b \<and>
    65536 < length (content s) div NODE_SIZE + length (b # rest) \<longrightarrow>
      isl (fst (insert_word k v s)) \<and>
      length (content (snd (insert_word k v s))) div NODE_SIZE \<le> 65536) \<and>
   (reachable s \<longrightarrow> length (content s) div NODE_SIZE \<le> 65536) \<and>
   (reachable s \<and> fst (read_node q s) = Inr (Some nd1) \<and> (d, i) \<in> set (children nd1) \<longrightarrow>
      i \<le> 65535 \<and> i < length (content s) div NODE_SIZE) \<and>
   (reachable s \<and> find_or_create_child p c s = (Inr x, s') \<longrightarrow>
      x \<le> 65535 \<and> x < length (content s') div NODE_SIZE \<and>
      (\<exists>nd. fst (read_node p s') = Inr (Some nd) \<and> find_child (children nd) c = Some x) \<and>
      (\<forall>nd0. fst (read_node p s) = Inr (Some nd0) \<and> find_child (children nd0) c = None \<longrightarrow>
         x = length (content s) div NODE_SIZE))"
proof -
  have b: "length (content t) div NODE_SIZE \<le> 65536" if "reachable t" for t
  proof -
    from reachable_represents[OF that] obtain ns where r: "represents t ns" by blast
    then show ?thesis using node_count_repr[OF r] by (simp add: represents_def trie_inv_def)
  qed
  have a: "isl (fst (insert_word k v s)) \<and>
      length (content (snd (insert_word k v s))) div NODE_SIZE \<le> 65536"
    if w: "reachable s \<or> represents s ns0" and h: "encode_utf8 k = Inr bs" "bs = pre @ b # rest"
      "edge_path s 0 pre y" "no_edge s y b"
      "65536 < length (content s) div NODE_SIZE + length (b # rest)"
  proof -
    from w reachable_represents[of s] obtain ns where r: "represents s ns" by blast
    from insert_word_crossing[OF r h] show ?thesis .
  qed
  have c: "x \<le> 65535 \<and> x < length (content s') div NODE_SIZE \<and>
      (\<exists>nd. fst (read_node p s') = Inr (Some nd) \<and> find_child (children nd) c = Some x) \<and>
      (\<forall>nd0. fst (read_node p s) = Inr (Some nd0) \<and> find_child (children nd0) c = None \<longrightarrow>
         x = length (content s) div NODE_SIZE)"
    if re: "reachable s" and f: "find_or_create_child p c s = (Inr x, s')"
  proof -
    from reachable_represents[OF re] obtain ns where r: "represents s ns" by blast
    then have inv: "trie_inv ns" by (simp add: represents_def)
    let ?ns1 = "snd (find_or_create_child_nodes p c ns)"
    from find_or_create_child_refines[OF r, of p c] f
    have f': "find_or_create_child_nodes p c ns = (Inr x, ?ns1)" and r': "represents s' ?ns1"
      by (simp_all add: prod_eq_iff)
    from r' have inv1: "trie_inv ?ns1" by (simp add: represents_def)
    from find_or_create_child_nodes_id[OF inv f']
    have x: "x < length ?ns1"
      and new: "find_child (children (ns ! p)) c = None \<longrightarrow> x = length ns" by simp_all
    from find_or_create_child_nodes_edge[OF f']
    have p: "p < length ?ns1" and e: "find_child (children (?ns1 ! p)) c = Some x" by simp_all
    from inv1 x have "x \<le> 65535" by (simp add: trie_inv_def)
    moreover have "x < length (content s') div NODE_SIZE" using node_count_repr[OF r'] x by simp
    moreover have "\<exists>nd. fst (read_node p s') = Inr (Some nd) \<and> find_child (children nd) c = Some x"
      using fst_read_node_repr[OF r', of p] p e by (simp add: read_nodes_def)
    moreover have "x = length (content s) div NODE_SIZE"
      if "fst (read_node p s) = Inr (Some nd0)" "find_child (children nd0) c = None" for nd0
    proof -
      from fst_read_node_repr[OF r, of p] that(1) have "nd0 = ns ! p"
        by (auto simp: read_nodes_def split: if_splits)
      with that(2) new show ?thesis using node_count_repr[OF r] by simp
    qed
    ultimately show ?thesis by blast
  qed
  show ?thesis
    using insert_word_overflow[of k bs s v] a b[of s] child_ids_repr[of s q nd1 d i] c by blast
qed

theorem node_id_ceiling_witness:
  "isl (fst (insert_word [97] 1 \<lparr>content = file_of (replicate 65536 root_node), position = 0\<rparr>)) \<and>
   content (snd (insert_word [97] 1
      \<lparr>content = file_of (replicate 65536 root_node), position = 0\<rparr>)) =
     file_of (replicate 65536 root_node) \<and>
   isl (fst (insert_word [97, 98] 1
      \<lparr>content = file_of (replicate 65535 root_node), position = 0\<rparr>)) \<and>
   length (content (snd (insert_word [97, 98] 1
      \<lparr>content = file_of (replicate 65535 root_node), position = 0\<rparr>))) div NODE_SIZE \<le> 65536 \<and>
   isl (fst (insert_word (replicate 65536 97) 1 (snd (init_trie [])))) \<and>
   length (content (snd (init_trie []))) div NODE_SIZE \<le> 65536 \<and>
   fst (find_or_create_child 0 98 (snd (init_trie []))) = Inr 1 \<and>
   1 < length (content (snd (find_or_create_child 0 98 (snd (init_trie []))))) div NODE_SIZE \<and>
   fst (read_node 0 (snd (find_or_create_child 0 98 (snd (init_trie []))))) =
     Inr (Some \<lparr>node_char = [0], is_terminal = False, node_values = [], children = [(98, 1)]\<rparr>)"
proof -
  define S where "S = \<lparr>content = file_of (replicate 65536 root_node), position = 0\<rparr>"
  have cS: "content S = file_of (replicate 65536 root_node)" by (simp add: S_def)
  have wf: "wf_node root_node" by (simp add: wf_node_def root_node_def)
  have rd: "fst (read_node 0 S) = Inr (Some root_node)"
    using read_node_file_of[OF cS, of 0] wf by simp
  have d: "fst (descend [97] 0 S) = Inr None"
    using rd by (cases "read_node 0 S") (simp add: root_node_def)
  have n: "65536 \<le> length (content S) div NODE_SIZE" by (simp add: cS NODE_SIZE_def)
  have e: "encode_utf8 [97] = Inr [97]" by (simp add: utf8_char_def)
  define T where "T = \<lparr>content = file_of (replicate 65535 root_node), position = 0\<rparr>"
  have "node_inv 65535 root_node" by (simp add: node_inv_def wf_node_def root_node_def)
  then have rT: "represents T (replicate 65535 root_node)"
    by (simp add: represents_def trie_inv_def T_def list_all_iff)
  have rdT: "fst (read_node 0 T) = Inr (Some root_node)"
    using fst_read_node_repr[OF rT, of 0] by (simp add: read_nodes_def)
  have nT: "length (content T) div NODE_SIZE = 65535" using node_count_repr[OF rT] by simp
  have eT: "encode_utf8 [97, 98] = Inr [97, 98]" by (simp add: utf8_char_def)
  have spT: "[97, 98] = [] @ 97 # [98 :: byte]" by simp
  have pT: "edge_path T 0 [] 0" by simp
  have neT: "no_edge T 0 97" using rdT by (simp add: no_edge_def root_node_def)
  have roomT: "65536 < length (content T) div NODE_SIZE + length [97, 98 :: byte]"
    by (simp add: nT)
  let ?s0 = "snd (init_trie [])"
  define s1 where "s1 = snd (find_or_create_child 0 98 ?s0)"
  have r1: "represents s1 (snd (find_or_create_child_nodes 0 98 [root_node]))"
    unfolding s1_def using find_or_create_child_refines[OF init_trie_new] by blast
  have f1: "fst (find_or_create_child 0 98 ?s0) = Inr 1"
    using find_or_create_child_refines[OF init_trie_new, of 0 98] by (simp add: nodes_eval)
  then have f: "find_or_create_child 0 98 ?s0 = (Inr 1, s1)"
    by (simp add: prod_eq_iff s1_def)
  have rd1: "fst (read_node 0 s1) =
      Inr (Some \<lparr>node_char = [0], is_terminal = False, node_values = [], children = [(98, 1)]\<rparr>)"
    using fst_read_node_repr[OF r1, of 0] by (simp add: nodes_eval)
  have rd0: "fst (read_node 0 ?s0) = Inr (Some root_node)"
    using fst_read_node_repr[OF init_trie_new, of 0] by (simp add: read_nodes_def)
  have n0: "length (content ?s0) div NODE_SIZE = 1"
    using node_count_repr[OF init_trie_new] by simp
  have ek: "encode_utf8 (replicate 65536 97) = Inr (replicate 65536 97)"
    using encode_utf8_ascii[of "replicate 65536 97"] by simp
  have "replicate (Suc 65535) (97 :: byte) = 97 # replicate 65535 97" by (rule replicate_Suc)
  then have sp: "replicate 65536 (97 :: byte) = [] @ 97 # replicate 65535 97" by simp
  have p0: "edge_path ?s0 0 [] 0" by simp
  have ne: "no_edge ?s0 0 97" using rd0 by (simp add: no_edge_def root_node_def)
  have room: "65536 < length (content ?s0) div NODE_SIZE + length (97 # replicate 65535 (97 :: byte))"
    by (simp add: n0)
  have t1: "isl (fst (insert_word [97] 1 S)) \<and> content (snd (insert_word [97] 1 S)) = content S"
    using node_id_ceiling[where k = "[97]" and bs = "[97]" and s = S and v = 1] e d n by blast
  have t2: "isl (fst (insert_word [97, 98] 1 T)) \<and>
      length (content (snd (insert_word [97, 98] 1 T))) div NODE_SIZE \<le> 65536"
    using node_id_ceiling[where k = "[97, 98]" and bs = "[97, 98]" and s = T and v = 1
        and ?ns0.0 = "replicate 65535 root_node" and pre = "[]" and b = 97 and rest = "[98]"
        and y = 0]
      rT eT spT pT neT roomT by blast
  have t3: "isl (fst (insert_word (replicate 65536 97) 1 ?s0))"
    using node_id_ceiling[where k = "replicate 65536 97" and bs = "replicate 65536 97"
        and s = ?s0 and v = 1 and pre = "[]" and b = 97 and rest = "replicate 65535 97"
        and y = 0]
      reachable_init ek sp p0 ne room by blast
  have t4: "length (content ?s0) div NODE_SIZE \<le> 65536"
    using node_id_ceiling[where s = ?s0] reachable_init by blast
  have t5: "1 < length (content s1) div NODE_SIZE"
    using node_id_ceiling[where s = ?s0 and p = 0 and c = 98 and x = 1 and s' = s1]
      reachable_init f by blast
  have t6: "1 \<le> (65535 :: nat) \<and> 1 < length (content s1) div NODE_SIZE"
    using node_id_ceiling[where s = s1 and q = 0 and d = 98 and i = 1
        and ?nd1.0 = "\<lparr>node_char = [0], is_terminal = False, node_values = [], children = [(98, 1)]\<rparr>"]
      reachable_child[OF reachable_init, of 0 98] rd1
    unfolding s1_def[symmetric] by simp
  show ?thesis
    using t1 t2 t3 t4 f1 t5 t6 rd1
    unfolding S_def[symmetric] T_def[symmetric] s1_def[symmetric] by (simp add: cS)
qed

subsection \<open>C8: the same value twice\<close>

text \<open>
  C8. In a store the program has produced, for every key and every value, a second
  \<open>insert(k, v)\<close> right after the first ends as the first did (it returns, or raises
  the same error), leaves the file byte for byte as the first left it, and so leaves
  \<open>lookup(k)\<close> with the result it had after the first.
\<close>

theorem insert_same_value_twice:
  assumes "reachable s"
  shows "fst (insert_word k v (snd (insert_word k v s))) = fst (insert_word k v s) \<and>
         content (snd (insert_word k v (snd (insert_word k v s)))) =
           content (snd (insert_word k v s)) \<and>
         fst (lookup k (snd (insert_word k v (snd (insert_word k v s))))) =
           fst (lookup k (snd (insert_word k v s)))"
proof -
  from reachable_represents[OF assms] obtain ns where r: "represents s ns" by blast
  let ?s1 = "snd (insert_word k v s)"
  let ?s2 = "snd (insert_word k v ?s1)"
  obtain q ns1 where i1: "insert_word_nodes k v ns = (q, ns1)"
    by (cases "insert_word_nodes k v ns")
  from insert_word_nodes_idem[OF i1] have i2: "insert_word_nodes k v ns1 = (q, ns1)" .
  from insert_word_refines[OF r, of k v] i1
  have a1: "fst (insert_word k v s) = q" and r1: "represents ?s1 ns1" by simp_all
  from insert_word_refines[OF r1, of k v] i2
  have a2: "fst (insert_word k v ?s1) = q" and r2: "represents ?s2 ns1" by simp_all
  have "content ?s2 = content ?s1" using r1 r2 by (simp add: represents_def)
  moreover have "fst (lookup k ?s2) = fst (lookup k ?s1)"
    using lookup_refines[OF r2, of k] lookup_refines[OF r1, of k] by simp
  ultimately show ?thesis using a1 a2 by simp
qed

theorem insert_same_value_twice_witness:
  "fst (insert_word [100, 111, 103] 3 (snd (insert_word [100, 111, 103] 3 (snd (init_trie []))))) =
     Inr () \<and>
   fst (lookup [100, 111, 103]
     (snd (insert_word [100, 111, 103] 3 (snd (insert_word [100, 111, 103] 3 (snd (init_trie []))))))) =
     Inr [3]"
proof -
  let ?k = "[100, 111, 103] :: pystr"
  let ?s = "snd (init_trie [])"
  let ?s1 = "snd (insert_word ?k 3 ?s)"
  let ?ns1 = "snd (insert_word_nodes ?k 3 [root_node])"
  have r1: "represents ?s1 ?ns1" using insert_word_refines[OF init_trie_new] by blast
  have h1: "fst (insert_word ?k 3 ?s) = Inr ()"
    using insert_word_refines[OF init_trie_new, of ?k 3] by (simp add: nodes_eval)
  have l1: "fst (lookup ?k ?s1) = Inr [3]"
    using lookup_refines[OF r1, of ?k] by (simp add: nodes_eval)
  from insert_same_value_twice[OF reachable_init, of ?k 3] h1 l1 show ?thesis by simp
qed

subsection \<open>C9: \<^verbatim>\<open>lookup\<close> and \<^verbatim>\<open>prefix_search\<close> only read\<close>

text \<open>
  C9. Whatever the store, the word, the prefix and the recursion limit, and whether they
  return or raise, \<^verbatim>\<open>lookup\<close> and \<^verbatim>\<open>prefix_search\<close> leave the bytes of the file as
  they were, and with them its length.
\<close>

theorem lookup_prefix_search_read_only:
  "content (snd (lookup word s)) = content s \<and>
   content (snd (prefix_search depth prefix s)) = content s"
  by (simp add: content_lookup content_prefix_search)

subsection \<open>C10: the empty key\<close>

text \<open>
  Against C10 as it stands: once the empty key holds the values 1 to 8, \<open>insert("", 9)\<close>
  returns and \<open>lookup("")\<close> does not contain 9.
\<close>

theorem insert_empty_key_counterexample:
  "fst (insert_all (map (Pair []) [1, 2, 3, 4, 5, 6, 7, 8, 9]) (snd (init_trie []))) = Inr () \<and>
   fst (lookup [] (snd (insert_all (map (Pair []) [1, 2, 3, 4, 5, 6, 7, 8, 9]) (snd (init_trie []))))) =
     Inr [1, 2, 3, 4, 5, 6, 7, 8] \<and>
   9 \<notin> set [1, 2, 3, 4, 5, 6, 7, 8 :: int]"
proof -
  let ?kvs = "map (Pair ([] :: pystr)) [1, 2, 3, 4, 5, 6, 7, 8, 9 :: int]"
  have r: "represents (snd (insert_all ?kvs (snd (init_trie []))))
      (snd (insert_all_nodes ?kvs [root_node]))"
    using insert_all_refines[OF init_trie_new] by blast
  have "fst (insert_all ?kvs (snd (init_trie []))) = Inr ()"
    using insert_all_refines[OF init_trie_new, of ?kvs] by (simp add: nodes_eval)
  moreover have "fst (lookup [] (snd (insert_all ?kvs (snd (init_trie []))))) =
      Inr [1, 2, 3, 4, 5, 6, 7, 8]"
    using lookup_refines[OF r, of "[]"] by (simp add: nodes_eval)
  ultimately show ?thesis by simp
qed

text \<open>
  C10, amended. In a store the program has produced, \<open>insert("", v)\<close> with an unsigned
  32-bit \<open>v\<close> returns, leaves the file at its length (no node is allocated) and the
  root, node 0, terminal; the root's values, which \<open>lookup("")\<close> then returns, are the
  ones it returned before, followed by \<open>v\<close> unless \<open>v\<close> was among them or they were
  \<open>MAX_VALUES\<close> already. So \<open>v\<close> is among them whenever it was before or there was
  room.
\<close>

theorem insert_empty_key:
  assumes "reachable s" and "0 \<le> v" and "v \<le> 4294967295"
  shows "\<exists>old nd. fst (lookup [] s) = Inr old \<and>
           fst (insert_word [] v s) = Inr () \<and>
           length (content (snd (insert_word [] v s))) = length (content s) \<and>
           fst (read_node 0 (snd (insert_word [] v s))) = Inr (Some nd) \<and> is_terminal nd \<and>
           node_values nd =
             (if v \<in> set old \<or> MAX_VALUES \<le> length old then old else old @ [v]) \<and>
           fst (lookup [] (snd (insert_word [] v s))) = Inr (node_values nd) \<and>
           (v \<in> set old \<or> length old < MAX_VALUES \<longrightarrow> v \<in> set (node_values nd))"
proof -
  from reachable_represents[OF assms(1)] obtain ns where r: "represents s ns" by blast
  then have inv: "trie_inv ns" by (simp add: represents_def)
  let ?ns' = "snd (insert_word_nodes [] v ns)"
  let ?s' = "snd (insert_word [] v s)"
  have bs: "encode_utf8 [] = Inr []" by simp
  have d: "descend_nodes [] 0 ns = Inr (Some 0)" by simp
  have c: "v \<in> set (node_values (ns ! 0)) \<or> MAX_VALUES \<le> length (node_values (ns ! 0)) \<or>
      (0 \<le> v \<and> v \<le> 4294967295)"
    using assms(2,3) by simp
  from insert_word_nodes_existing[OF inv bs d c]
  have ok: "fst (insert_word_nodes [] v ns) = Inr ()" and len: "length ?ns' = length ns"
    by simp_all
  from ok have i: "insert_word_nodes [] v ns = (Inr (), ?ns')" by (simp add: prod_eq_iff)
  from insert_word_refines[OF r, of "[]" v] ok
  have ok': "fst (insert_word [] v s) = Inr ()" and r': "represents ?s' ?ns'" by simp_all
  from insert_word_nodes_result[OF inv i] obtain old where
    lo: "lookup_nodes [] ns = Inr old" and x: "0 < length ?ns'"
    and t: "is_terminal (?ns' ! 0)" and vs: "node_values (?ns' ! 0) = add_value old v"
    by auto
  have rd: "fst (read_node 0 ?s') = Inr (Some (?ns' ! 0))"
    using fst_read_node_repr[OF r', of 0] x by (simp add: read_nodes_def)
  have l': "fst (lookup [] ?s') = Inr (node_values (?ns' ! 0))"
    using lookup_refines[OF r', of "[]"] x t by (simp add: lookup_nodes_def read_nodes_def)
  have av: "add_value old v =
      (if v \<in> set old \<or> MAX_VALUES \<le> length old then old else old @ [v])"
    by (auto simp: add_value_def)
  have "fst (lookup [] s) = Inr old" using lookup_refines[OF r, of "[]"] lo by simp
  moreover have "length (content ?s') = length (content s)"
    using length_content_repr[OF r] length_content_repr[OF r'] len by simp
  moreover have "v \<in> set old \<or> length old < MAX_VALUES \<longrightarrow> v \<in> set (node_values (?ns' ! 0))"
    by (auto simp: vs av)
  ultimately show ?thesis using ok' rd t l' vs av by auto
qed

theorem insert_empty_key_witness:
  "fst (insert_word [] 5 (snd (init_trie []))) = Inr () \<and>
   length (content (snd (insert_word [] 5 (snd (init_trie []))))) =
     length (content (snd (init_trie []))) \<and>
   fst (read_node 0 (snd (insert_word [] 5 (snd (init_trie []))))) =
     Inr (Some \<lparr>node_char = [0], is_terminal = True, node_values = [5], children = []\<rparr>) \<and>
   fst (lookup [] (snd (insert_word [] 5 (snd (init_trie []))))) = Inr [5]"
proof -
  let ?s = "snd (init_trie [])"
  let ?s' = "snd (insert_word [] 5 ?s)"
  have r': "represents ?s' (snd (insert_word_nodes [] 5 [root_node]))"
    using insert_word_refines[OF init_trie_new] by blast
  have rd: "fst (read_node 0 ?s') =
      Inr (Some \<lparr>node_char = [0], is_terminal = True, node_values = [5], children = []\<rparr>)"
    using fst_read_node_repr[OF r', of 0] by (simp add: nodes_eval)
  from insert_empty_key[OF reachable_init, of 5] rd show ?thesis by auto
qed

end
